theory Spec2Isabelle
  imports Main "HOL-Library.Word" "HOL-Library.Monad_Syntax"
begin

section \<open>Bytes, C strings and the encoding classifier\<close>

text \<open>
  The tokenizer of \<^verbatim>\<open>parse.c\<close> works on bytes through \<^verbatim>\<open>unsigned char *\<close>; a byte is
  an 8-bit word, compared unsigned. \<^verbatim>\<open>unsigned int\<close> is taken as 32 bits wide.
\<close>

type_synonym byte = "8 word"
type_synonym u32 = "32 word"

text \<open>
  \<^verbatim>\<open>#define is_big5(p)     ((unsigned int)*(p) > 0xa0)\<close>,
  \<^verbatim>\<open>#define is_big5word(p) ((unsigned int)*(p) > 0xa3)\<close> and
  \<^verbatim>\<open>#define is_alnum(p) ((*(p) > 0x60) && (*(p) < 0x7b)) || ((*(p) > 0x40) && (*(p) < 0x5b))
  || ((*(p) > 0x30) && (*(p) < 0x3b))\<close>, each applied to the byte that \<open>p\<close> points to.
\<close>

definition is_big5 :: "byte \<Rightarrow> bool" where
  "is_big5 b = (b > 0xa0)"

definition is_big5word :: "byte \<Rightarrow> bool" where
  "is_big5word b = (b > 0xa3)"

definition is_alnum :: "byte \<Rightarrow> bool" where
  "is_alnum b = ((b > 0x60 \<and> b < 0x7b) \<or> (b > 0x40 \<and> b < 0x5b) \<or> (b > 0x30 \<and> b < 0x3b))"

text \<open>The test of the lower-casing statement,
  \<^verbatim>\<open>if((*(p) > 0x40) && (*(p) < 0x5b)) *(p) += 32;\<close>\<close>

definition is_upper :: "byte \<Rightarrow> bool" where
  "is_upper b = (b > 0x40 \<and> b < 0x5b)"

text \<open>
  The emitters apply \<^verbatim>\<open>is_big5\<close> to \<^verbatim>\<open>en->word\<close>, a \<^verbatim>\<open>char *\<close>. Where \<^verbatim>\<open>char\<close> is unsigned the
  macro is the test above. Where \<^verbatim>\<open>char\<close> is signed the cast to \<^verbatim>\<open>unsigned int\<close> extends the
  sign, and the macro is \<open>is_big5_signed\<close>, true of every byte from \<open>0x80\<close> on. The two
  differ on the bytes \<open>0x80\<close> to \<open>0xa0\<close> only. The emitters below use \<open>is_big5\<close>; no word that
  the tokenizer stores starts with a byte on which the two differ, which is proved
  further down.
\<close>

definition is_big5_signed :: "byte \<Rightarrow> bool" where
  "is_big5_signed b = ((scast b :: u32) > 0xa0)"

text \<open>The byte that the lower-casing statement leaves.\<close>

definition lower :: "byte \<Rightarrow> byte" where
  "lower b = (if is_upper b then b + 32 else b)"

text \<open>
  A NUL-terminated object holding the bytes \<open>w\<close> occupies \<open>length w + 1\<close> bytes, the last
  one the terminator. \<open>rd w i\<close> is the read \<^verbatim>\<open>*(w + i)\<close>: a byte of \<open>w\<close>, the terminator at
  \<open>i = length w\<close>, and \<open>None\<close> beyond it, where the C code reads memory outside the object
  (undefined behaviour). \<open>None\<close> has this one meaning throughout the development.
\<close>

definition rd :: "byte list \<Rightarrow> nat \<Rightarrow> byte option" where
  "rd w i = (if i < length w then Some (w ! i) else if i = length w then Some 0 else None)"

text \<open>\<open>bytes_at w off n\<close>: the \<open>n\<close> bytes a \<^verbatim>\<open>memcpy\<close> reads at \<^verbatim>\<open>w + off\<close>.\<close>

definition bytes_at :: "byte list \<Rightarrow> nat \<Rightarrow> nat \<Rightarrow> byte list option" where
  "bytes_at w off n =
     (if off + n \<le> length w + 1 then Some (take n (drop off (w @ [0]))) else None)"

text \<open>
  \<open>strncpy_src w off n\<close>: the \<open>n\<close> bytes that \<^verbatim>\<open>strncpy(dst, w + off, n)\<close> writes: the bytes of
  the source up to its first NUL, then NULs up to \<open>n\<close>. The source is read no further than
  its first NUL, so the read stays inside the object whenever \<open>off \<le> length w\<close>.
\<close>

definition strncpy_src :: "byte list \<Rightarrow> nat \<Rightarrow> nat \<Rightarrow> byte list option" where
  "strncpy_src w off n =
     (if off \<le> length w
      then (let s = takeWhile (\<lambda>b. b \<noteq> 0) (take n (drop off w))
            in Some (s @ replicate (n - length s) 0))
      else None)"

text \<open>
  The fixed arrays \<^verbatim>\<open>key\<close>, \<^verbatim>\<open>val\<close> and \<^verbatim>\<open>delim\<close> are memory addressed by the offset from
  their first byte. The source checks no offset against \<^verbatim>\<open>MAXKEY\<close> or \<^verbatim>\<open>MAXVAL\<close>, and
  neither does the model: a write at an offset beyond the array is performed, and kept at
  that offset (what else it destroys depends on the memory layout, which is not modelled).
\<close>

type_synonym mem = "nat \<Rightarrow> byte"

definition MAXKEY :: nat where
  "MAXKEY = 32"

definition MAXVAL :: nat where
  "MAXVAL = 32768"

definition memcpy :: "mem \<Rightarrow> nat \<Rightarrow> byte list \<Rightarrow> mem" where
  "memcpy m off bs = (\<lambda>i. if off \<le> i \<and> i < off + length bs then bs ! (i - off) else m i)"

text \<open>\<open>c_string m i n\<close>: the string at offset \<open>i\<close> of \<open>m\<close>, read up to its NUL and at most
  \<open>n\<close> bytes far.\<close>

fun c_string :: "mem \<Rightarrow> nat \<Rightarrow> nat \<Rightarrow> byte list" where
  "c_string m i 0 = []"
| "c_string m i (Suc n) = (if m i = 0 then [] else m i # c_string m (Suc i) n)"

text \<open>
  The string in \<^verbatim>\<open>key\<close>, as \<^verbatim>\<open>strdup(key)\<close> and the callback read it. Every caller has written
  a NUL at an offset of at most \<^verbatim>\<open>MAXKEY\<close> before (at \<^verbatim>\<open>key[MAXKEY]\<close> itself for a run of 32
  or more letters), so the bound of \<open>MAXKEY + 1\<close> bytes never cuts the string.
\<close>

definition key_string :: "mem \<Rightarrow> byte list" where
  "key_string k = c_string k 0 (Suc MAXKEY)"

section \<open>Entries and the frequency table\<close>

text \<open>\<^verbatim>\<open>struct entry { char *word; unsigned int freq; };\<close> The word is the string's bytes,
  without the terminator.\<close>

record entry =
  word :: "byte list"
  freq :: u32

text \<open>\<^verbatim>\<open>strcmp\<close> of the C library: the bytes compare as \<^verbatim>\<open>unsigned char\<close>, and the sign of
  the result is the order of the first bytes that differ (the terminator being 0); nothing
  after a NUL is compared.\<close>

fun strcmp :: "byte list \<Rightarrow> byte list \<Rightarrow> int" where
  "strcmp [] [] = 0"
| "strcmp [] (y # ys) = - uint y"
| "strcmp (x # xs) [] = uint x"
| "strcmp (x # xs) (y # ys) =
     (if x = y then (if x = 0 then 0 else strcmp xs ys) else uint x - uint y)"

definition wordcmp :: "entry \<Rightarrow> entry \<Rightarrow> int" where
  "wordcmp a b = strcmp (word a) (word b)"

text \<open>
  Modelled from the spec: the ordered dictionary of \<^verbatim>\<open>avltree.h\<close> (\<^verbatim>\<open>tree_init\<close>,
  \<^verbatim>\<open>tree_srch\<close>, \<^verbatim>\<open>tree_add\<close>, \<^verbatim>\<open>tree_trav\<close>, \<^verbatim>\<open>tree_mung\<close>), whose code is not part of the
  sources. The spec asks for find, insert, traversal in the comparator's order and bulk
  destruction. The tree is the list of its nodes in traversal order; a node is named by
  its position.
\<close>

definition tree_init :: "'a list" where
  "tree_init = []"

fun tree_srch :: "('a \<Rightarrow> 'a \<Rightarrow> int) \<Rightarrow> 'a \<Rightarrow> 'a list \<Rightarrow> nat option" where
  "tree_srch cmp k [] = None"
| "tree_srch cmp k (y # ys) =
     (if cmp k y = 0 then Some 0 else map_option Suc (tree_srch cmp k ys))"

fun tree_add :: "('a \<Rightarrow> 'a \<Rightarrow> int) \<Rightarrow> 'a \<Rightarrow> 'a list \<Rightarrow> 'a list" where
  "tree_add cmp x [] = [x]"
| "tree_add cmp x (y # ys) =
     (if cmp x y < 0 then x # y # ys
      else if cmp x y = 0 then x # ys
      else y # tree_add cmp x ys)"

fun tree_trav :: "('a \<Rightarrow> 's \<Rightarrow> 's option) \<Rightarrow> 'a list \<Rightarrow> 's \<Rightarrow> 's option" where
  "tree_trav visit [] s = Some s"
| "tree_trav visit (x # xs) s = (case visit x s of None \<Rightarrow> None | Some s' \<Rightarrow> tree_trav visit xs s')"

definition tree_mung :: "'a list \<Rightarrow> 'a list" where
  "tree_mung t = []"

text \<open>
  \<^verbatim>\<open>addentry(x)\<close>: the entry of the word \<open>x\<close> is incremented in place (\<^verbatim>\<open>++en->freq\<close>, an
  \<^verbatim>\<open>unsigned int\<close>, so the increment wraps), or a new entry with \<^verbatim>\<open>freq = 1\<close> and a copy of
  the word is added. The search key \<^verbatim>\<open>k\<close> has only its word set; \<^verbatim>\<open>wordcmp\<close> reads nothing else.
\<close>

definition addentry :: "byte list \<Rightarrow> entry list \<Rightarrow> entry list" where
  "addentry x t =
     (let k = \<lparr>word = x, freq = 0\<rparr> in
      case tree_srch wordcmp k t of
        Some i \<Rightarrow> t[i := (t ! i)\<lparr>freq := freq (t ! i) + 1\<rparr>]
      | None \<Rightarrow> tree_add wordcmp \<lparr>word = x, freq = 1\<rparr> t)"

section \<open>The global state\<close>

text \<open>
  The globals of \<^verbatim>\<open>parse.c\<close>: \<^verbatim>\<open>char key[MAXKEY]; char val[MAXVAL]; char delim[4]; char *valp;
  char query; struct entry *last; tree *wordtree; PARSE_CB *cb;\<close> The pointer \<^verbatim>\<open>valp\<close> is
  its offset from \<^verbatim>\<open>val\<close>; \<^verbatim>\<open>last\<close> (here \<open>last_en\<close>) is the entry it points to. The callback
  \<^verbatim>\<open>cb\<close> is code of the caller: \<open>calls\<close> is the list of its invocations so far, oldest first.
\<close>

datatype arg2 = Bytes "byte list" | Number nat

record call =
  arg1 :: "byte list"
  arg2 :: arg2
  arg3 :: u32

record globals =
  key :: mem
  val :: mem
  delim :: mem
  valp :: nat
  query :: byte
  last_en :: "entry option"
  wordtree :: "entry list"
  calls :: "call list"

definition cb :: "byte list \<Rightarrow> arg2 \<Rightarrow> u32 \<Rightarrow> globals \<Rightarrow> globals" where
  "cb a1 a2 a3 s = s\<lparr>calls := calls s @ [\<lparr>arg1 = a1, arg2 = a2, arg3 = a3\<rparr>]\<rparr>"

section \<open>The tokenizer\<close>

text \<open>\<^verbatim>\<open>addentry(key)\<close>: the string in \<^verbatim>\<open>key\<close> goes into the table.\<close>

definition addentry_key :: "globals \<Rightarrow> globals" where
  "addentry_key s = s\<lparr>wordtree := addentry (key_string (key s)) (wordtree s)\<rparr>"

text \<open>
  \<^verbatim>\<open>while(is_big5word(p += 2)) { strncpy(key, p-2, 4); addentry(key); }\<close>
  The argument \<open>p\<close> is the pointer before the first \<^verbatim>\<open>p += 2\<close>, the result the pointer the
  loop is left with.
\<close>

function big5_loop :: "byte list \<Rightarrow> nat \<Rightarrow> globals \<Rightarrow> (nat \<times> globals) option" where
  "big5_loop buf p s =
     (case rd buf (p + 2) of
        None \<Rightarrow> None
      | Some c \<Rightarrow>
          if is_big5word c then
            (case strncpy_src buf p 4 of
               None \<Rightarrow> None
             | Some src \<Rightarrow> big5_loop buf (p + 2) (addentry_key (s\<lparr>key := memcpy (key s) 0 src\<rparr>)))
          else Some (p + 2, s))"
  by pat_completeness auto
termination
  by (relation "measure (\<lambda>(buf, p, s). Suc (length buf) - p)")
     (auto simp: rd_def split: if_splits)

declare big5_loop.simps [simp del]

text \<open>
  The branch of a double-byte character, with \<^verbatim>\<open>PARSE_SINGLE_CHARACTER\<close> defined as the
  source defines it:
  \<^verbatim>\<open>if(is_big5(p)) { if(is_big5word(p += 2)) { A; while ...; B } else C }\<close>.
  In the three parts below \<open>p\<close> is the pointer at that place of the source.

  Part A: \<^verbatim>\<open>key[4] = 0; if(is_big5word(p - 2)) { strncpy(key, p-2, 4); addentry(key); }\<close>
\<close>

definition first_bigram :: "byte list \<Rightarrow> nat \<Rightarrow> globals \<Rightarrow> globals option" where
  "first_bigram buf p s = do {
     let s1 = s\<lparr>key := (key s)(4 := 0)\<rparr>;
     a \<leftarrow> rd buf (p - 2);
     if is_big5word a
     then map_option (\<lambda>src. addentry_key (s1\<lparr>key := memcpy (key s1) 0 src\<rparr>))
            (strncpy_src buf (p - 2) 4)
     else Some s1
   }"

text \<open>Part B: \<^verbatim>\<open>if (!(query && is_big5word(p-4))) { key[2] = key[3] = 0x21;
  strncpy(key, p-2, 2); addentry(key); }\<close>\<close>

definition trailing_unigram :: "byte list \<Rightarrow> nat \<Rightarrow> globals \<Rightarrow> globals option" where
  "trailing_unigram buf p s = do {
     suppress \<leftarrow> (if query s \<noteq> 0 then map_option is_big5word (rd buf (p - 4))
                  else Some False);
     if \<not> suppress then do {
       let s1 = s\<lparr>key := (key s)(2 := 0x21, 3 := 0x21)\<rparr>;
       src \<leftarrow> strncpy_src buf (p - 2) 2;
       Some (addentry_key (s1\<lparr>key := memcpy (key s1) 0 src\<rparr>))
     } else Some s
   }"

text \<open>Part C: \<^verbatim>\<open>else if(is_big5word(p - 2)) { key[4] = 0; key[2] = key[3] = 0x21;
  strncpy(key, p - 2, 2); addentry(key); }\<close>\<close>

definition single_unigram :: "byte list \<Rightarrow> nat \<Rightarrow> globals \<Rightarrow> globals option" where
  "single_unigram buf p s = do {
     a \<leftarrow> rd buf (p - 2);
     if is_big5word a then do {
       let s1 = s\<lparr>key := (key s)(4 := 0, 2 := 0x21, 3 := 0x21)\<rparr>;
       src \<leftarrow> strncpy_src buf (p - 2) 2;
       Some (addentry_key (s1\<lparr>key := memcpy (key s1) 0 src\<rparr>))
     } else Some s
   }"

text \<open>The whole branch; the argument \<open>p\<close> is the pointer on entry, the result the pointer
  on exit.\<close>

definition big5_branch :: "byte list \<Rightarrow> nat \<Rightarrow> globals \<Rightarrow> (nat \<times> globals) option" where
  "big5_branch buf p s =
     (case rd buf (p + 2) of
        None \<Rightarrow> None
      | Some c \<Rightarrow>
          if is_big5word c then do {
            s2 \<leftarrow> first_bigram buf (p + 2) s;
            (q, s3) \<leftarrow> big5_loop buf (p + 2) s2;
            s4 \<leftarrow> trailing_unigram buf q s3;
            Some (q, s4)
          } else map_option (\<lambda>s'. (p + 2, s')) (single_unigram buf (p + 2) s))"

text \<open>
  \<^verbatim>\<open>do { if((*(p) > 0x40) && (*(p) < 0x5b)) *(p) += 32; ++p, ++xlen; } while(is_alnum(p));\<close>
  The loop writes the lower-cased letters into the caller's buffer. \<^verbatim>\<open>xlen\<close> is an \<^verbatim>\<open>int\<close>
  in the source; the model counts in \<open>nat\<close>, the same for every run shorter than \<open>2^31\<close>.
\<close>

function alnum_loop :: "byte list \<Rightarrow> nat \<Rightarrow> nat \<Rightarrow> (byte list \<times> nat \<times> nat) option" where
  "alnum_loop buf p xlen =
     (case rd buf p of
        None \<Rightarrow> None
      | Some b \<Rightarrow>
          (let buf' = (if is_upper b then buf[p := b + 32] else buf) in
           case rd buf' (p + 1) of
             None \<Rightarrow> None
           | Some c \<Rightarrow>
               if is_alnum c then alnum_loop buf' (p + 1) (xlen + 1)
               else Some (buf', p + 1, xlen + 1)))"
  by pat_completeness auto
termination
  by (relation "measure (\<lambda>(buf, p, xlen). Suc (length buf) - p)")
     (auto simp: rd_def split: if_splits)

declare alnum_loop.simps [simp del]

text \<open>
  The branch of an ASCII run: \<^verbatim>\<open>if(xlen > 1) { if(xlen > MAXKEY) xlen = MAXKEY;
  strncpy(key, start, xlen); key[xlen] = 0; addentry(key); }\<close>
\<close>

definition alnum_branch :: "byte list \<Rightarrow> nat \<Rightarrow> globals \<Rightarrow> (byte list \<times> nat \<times> globals) option" where
  "alnum_branch buf p s = do {
     (buf', q, xlen) \<leftarrow> alnum_loop buf p 0;
     if xlen > 1 then do {
       let xlen' = (if xlen > MAXKEY then MAXKEY else xlen);
       src \<leftarrow> strncpy_src buf' p xlen';
       let s1 = s\<lparr>key := (memcpy (key s) 0 src)(xlen' := 0)\<rparr>;
       Some (buf', q, addentry_key s1)
     } else Some (buf', q, s)
   }"

text \<open>One pass through the body of \<^verbatim>\<open>while(*p) { ... }\<close>, for a byte \<open>b = *p\<close>.\<close>

definition extract_step :: "byte list \<Rightarrow> nat \<Rightarrow> globals \<Rightarrow> (byte list \<times> nat \<times> globals) option" where
  "extract_step buf p s =
     (case rd buf p of
        None \<Rightarrow> None
      | Some b \<Rightarrow>
          if is_big5 b then map_option (\<lambda>(q, s'). (buf, q, s')) (big5_branch buf p s)
          else if is_alnum b then alnum_branch buf p s
          else Some (buf, p + 1, s))"

lemma big5_loop_advances:
  "big5_loop buf p s = Some (q, s') \<Longrightarrow> p + 2 \<le> q"
proof (induction buf p s arbitrary: q s' rule: big5_loop.induct)
  case (1 buf p s)
  show ?case
  proof (cases "rd buf (p + 2)")
    case None
    with "1.prems" show ?thesis by (simp add: big5_loop.simps [of buf p s])
  next
    case (Some c)
    show ?thesis
    proof (cases "is_big5word c")
      case False
      with Some "1.prems" show ?thesis by (simp add: big5_loop.simps [of buf p s])
    next
      case True
      with Some "1.prems" obtain src where src: "strncpy_src buf p 4 = Some src"
        and rec: "big5_loop buf (p + 2) (addentry_key (s\<lparr>key := memcpy (key s) 0 src\<rparr>)) = Some (q, s')"
        by (simp add: big5_loop.simps [of buf p s] split: option.splits)
      from "1.IH" [OF Some True src rec] show ?thesis by simp
    qed
  qed
qed

lemma alnum_loop_advances:
  "alnum_loop buf p n = Some (buf', q, n') \<Longrightarrow> p < q \<and> length buf' = length buf"
proof (induction buf p n arbitrary: buf' q n' rule: alnum_loop.induct)
  case (1 buf p n)
  from "1.prems" obtain b where b: "rd buf p = Some b"
    by (simp add: alnum_loop.simps [of buf p n] split: option.splits)
  define buf1 where "buf1 = (if is_upper b then buf[p := b + 32] else buf)"
  have len: "length buf1 = length buf" by (simp add: buf1_def)
  from "1.prems" b obtain c where c: "rd buf1 (p + 1) = Some c"
    by (simp add: alnum_loop.simps [of buf p n] buf1_def Let_def split: option.splits)
  show ?case
  proof (cases "is_alnum c")
    case False
    with "1.prems" b c len show ?thesis
      by (simp add: alnum_loop.simps [of buf p n] buf1_def [symmetric] Let_def)
  next
    case True
    with "1.prems" b c have rec: "alnum_loop buf1 (p + 1) (n + 1) = Some (buf', q, n')"
      by (simp add: alnum_loop.simps [of buf p n] buf1_def [symmetric] Let_def)
    from "1.IH" [OF b buf1_def c True rec] len show ?thesis by simp
  qed
qed

lemma extract_step_advances:
  "extract_step buf p s = Some (buf', q, s') \<Longrightarrow> p < q \<and> length buf' = length buf"
  unfolding extract_step_def big5_branch_def alnum_branch_def single_unigram_def
  by (auto simp: Let_def bind_eq_Some_conv split: option.splits if_splits
           dest!: big5_loop_advances alnum_loop_advances)

text \<open>\<^verbatim>\<open>while(*p) { ... }\<close>\<close>

function extract_loop :: "byte list \<Rightarrow> nat \<Rightarrow> globals \<Rightarrow> (byte list \<times> globals) option" where
  "extract_loop buf p s =
     (case rd buf p of
        None \<Rightarrow> None
      | Some b \<Rightarrow>
          if b = 0 then Some (buf, s)
          else (case extract_step buf p s of
                  None \<Rightarrow> None
                | Some (buf', q, s') \<Rightarrow> extract_loop buf' q s'))"
  by pat_completeness auto
termination
proof (relation "measure (\<lambda>(buf, p, s). Suc (length buf) - p)", goal_cases)
  case 1
  show ?case by simp
next
  case (2 buf p s b r buf' r' q s')
  from 2 have "p < q" "length buf' = length buf"
    using extract_step_advances [of buf p s buf' q s'] by auto
  moreover from 2 have "p \<le> length buf"
    by (auto simp: rd_def split: if_splits)
  ultimately show ?case by simp
qed

declare extract_loop.simps [simp del]

text \<open>\<^verbatim>\<open>void extract_words(unsigned char *p)\<close>: the buffer as the call leaves it, and the
  globals.\<close>

definition extract_words :: "byte list \<Rightarrow> globals \<Rightarrow> (byte list \<times> globals) option" where
  "extract_words buf s = extract_loop buf 0 (s\<lparr>wordtree := tree_init\<rparr>)"

section \<open>The emitters\<close>

text \<open>\<^verbatim>\<open>en->freq > 0xa3 ? 0xa3 : en->freq\<close>, the expression every emitter passes on.\<close>

definition emitted :: "u32 \<Rightarrow> u32" where
  "emitted f = (if f > 0xa3 then 0xa3 else f)"

text \<open>
  The statements that open a group in \<^verbatim>\<open>cb_delim\<close>, the same in both places of the source:
  \<^verbatim>\<open>memcpy(key, en->word, 2); key[2]=0; memcpy(valp = val, delim, 4);
  memcpy(valp+4, en->word+2, 2); *(valp+=6) = (en->freq > 0xa3 ? 0xa3 : en->freq);\<close>
\<close>

definition open_group :: "entry \<Rightarrow> globals \<Rightarrow> globals option" where
  "open_group en s = do {
     pfx \<leftarrow> bytes_at (word en) 0 2;
     let s1 = s\<lparr>key := (memcpy (key s) 0 pfx)(2 := 0)\<rparr>;
     let v = memcpy (val s1) 0 (map (delim s1) [0..<4]);
     sfx \<leftarrow> bytes_at (word en) 2 2;
     Some (s1\<lparr>val := (memcpy v 4 sfx)(6 := ucast (emitted (freq en))), valp := 6\<rparr>)
   }"

text \<open>\<^verbatim>\<open>cb(key, val, valp-val+1)\<close>: the callback is handed the string in \<^verbatim>\<open>key\<close>, the bytes
  from \<^verbatim>\<open>val\<close> to \<^verbatim>\<open>valp\<close> and their number.\<close>

definition flush_group :: "byte list \<Rightarrow> globals \<Rightarrow> globals" where
  "flush_group k s = cb k (Bytes (map (val s) [0..<valp s + 1])) (of_nat (valp s + 1)) s"

definition cb_delim :: "entry \<Rightarrow> globals \<Rightarrow> globals option" where
  "cb_delim en s =
     (case rd (word en) 0 of
        None \<Rightarrow> None
      | Some b0 \<Rightarrow>
          if is_big5 b0 then do {
            s' \<leftarrow> (case last_en s of
                    Some l \<Rightarrow> do {
                      l0 \<leftarrow> rd (word l) 0;
                      same \<leftarrow> (if b0 = l0 then do {
                                 b1 \<leftarrow> rd (word en) 1;
                                 l1 \<leftarrow> rd (word l) 1;
                                 Some (b1 = l1)
                               } else Some False);
                      if same then do {
                        sfx \<leftarrow> bytes_at (word en) 2 2;
                        Some (s\<lparr>val := (memcpy (val s) (valp s + 1) sfx)
                                         (valp s + 3 := ucast (emitted (freq en))),
                                valp := valp s + 3\<rparr>)
                      } else open_group en (flush_group (key_string (key s)) s)
                    }
                  | None \<Rightarrow> open_group en s);
            Some (s'\<lparr>last_en := Some en\<rparr>)
          } else do {
            let v = memcpy (val s) 0 (map (delim s) [0..<4]);
            let s1 = s\<lparr>val := v(4 := 0x20, 5 := 0x20, 6 := ucast (emitted (freq en))), valp := 6\<rparr>;
            Some (flush_group (word en) s1)
          })"

definition cb_pair :: "entry \<Rightarrow> globals \<Rightarrow> globals option" where
  "cb_pair en s =
     (case rd (word en) 0 of
        None \<Rightarrow> None
      | Some b0 \<Rightarrow>
          if is_big5 b0 then do {
            pfx \<leftarrow> bytes_at (word en) 0 2;
            let s1 = s\<lparr>key := (memcpy (key s) 0 pfx)(2 := 0)\<rparr>;
            if 2 \<le> length (word en)
            then Some (cb (key_string (key s1)) (Bytes (drop 2 (word en))) (emitted (freq en)) s1)
            else None
          } else Some (cb (word en) (Bytes [0x20, 0x20]) (emitted (freq en)) s))"

text \<open>
  \<^verbatim>\<open>cb(strcat(en->word, "  "), (char *)strlen(en->word)+2, ...)\<close>: the first argument changes
  the string whose length the second one reads, and C leaves the order in which the
  arguments of a call are evaluated unspecified. The order is a parameter of the model.
  (\<^verbatim>\<open>strcat\<close> writes two bytes more than \<^verbatim>\<open>strdup\<close> allocated for the word; the model keeps
  the appended bytes.)
\<close>

datatype arg_order = Left_To_Right | Right_To_Left

definition cb_word :: "arg_order \<Rightarrow> entry \<Rightarrow> globals \<Rightarrow> globals option" where
  "cb_word ord en s =
     (case rd (word en) 0 of
        None \<Rightarrow> None
      | Some b0 \<Rightarrow>
          if is_big5 b0 then Some (cb (word en) (Number 4) (emitted (freq en)) s)
          else
            (let padded = word en @ [0x20, 0x20];
                 n = (case ord of
                        Left_To_Right \<Rightarrow> length padded + 2
                      | Right_To_Left \<Rightarrow> length (word en) + 2)
             in Some (cb padded (Number n) (emitted (freq en)) s)))"

section \<open>The parse drivers\<close>

text \<open>
  \<^verbatim>\<open>parse_delim(p, seed, callback)\<close>. What follows \<^verbatim>\<open>extract_words(p)\<close> in its body is
  \<open>emit_delim\<close>: \<^verbatim>\<open>memcpy(delim, seed, 4); last = 0; cb = callback; tree_trav(&wordtree,
  cb_delim); if (last) { last->word[2] = 0; cb(last->word, val, valp-val+1); }\<close>
  \<open>seed\<close> holds the bytes of the object the caller passes, of which \<^verbatim>\<open>memcpy\<close> reads four.
  The last statement cuts the last entry's word to its first two bytes and hands it over
  as the key. \<open>parse_delim\<close> returns the caller's buffer as the call leaves it, and the
  globals.
\<close>

definition emit_delim :: "byte list \<Rightarrow> globals \<Rightarrow> globals option" where
  "emit_delim seed s1 = do {
     d \<leftarrow> (if 4 \<le> length seed then Some (take 4 seed) else None);
     let s2 = s1\<lparr>delim := memcpy (delim s1) 0 d, last_en := None\<rparr>;
     s3 \<leftarrow> tree_trav cb_delim (wordtree s2) s2;
     (case last_en s3 of
        Some l \<Rightarrow> (if 2 \<le> length (word l)
                   then Some (flush_group (take 2 (word l)) s3) else None)
      | None \<Rightarrow> Some s3)
   }"

definition parse_delim :: "byte list \<Rightarrow> byte list \<Rightarrow> globals \<Rightarrow> (byte list \<times> globals) option" where
  "parse_delim p seed s = do {
     (p', s1) \<leftarrow> extract_words p s;
     s4 \<leftarrow> emit_delim seed s1;
     Some (p', s4\<lparr>wordtree := tree_mung (wordtree s4)\<rparr>)
   }"

definition parse_pair :: "byte list \<Rightarrow> globals \<Rightarrow> (byte list \<times> globals) option" where
  "parse_pair p s = do {
     (p', s1) \<leftarrow> extract_words p s;
     s2 \<leftarrow> tree_trav cb_pair (wordtree s1) s1;
     Some (p', s2\<lparr>wordtree := tree_mung (wordtree s2)\<rparr>)
   }"

definition parse_word :: "arg_order \<Rightarrow> byte list \<Rightarrow> globals \<Rightarrow> (byte list \<times> globals) option" where
  "parse_word ord p s = do {
     (p', s1) \<leftarrow> extract_words p s;
     s2 \<leftarrow> tree_trav (cb_word ord) (wordtree s1) s1;
     Some (p', s2\<lparr>wordtree := tree_mung (wordtree s2)\<rparr>)
   }"

text \<open>
  The globals as the C program initialises them: \<^verbatim>\<open>char delim[4] = "????"; char *valp = val;\<close>
  and zero everywhere else.
\<close>

definition initial_globals :: globals where
  "initial_globals =
     \<lparr>key = (\<lambda>_. 0), val = (\<lambda>_. 0), delim = (\<lambda>i. if i < 4 then 0x3f else 0), valp = 0,
      query = 0, last_en = None, wordtree = tree_init, calls = []\<rparr>"

text \<open>The count the table holds for a word: the \<^verbatim>\<open>freq\<close> of the entry that \<^verbatim>\<open>addentry\<close>'s own
  search finds, 0 when there is none.\<close>

definition stored_count :: "entry list \<Rightarrow> byte list \<Rightarrow> u32" where
  "stored_count t w =
     (case tree_srch wordcmp \<lparr>word = w, freq = 0\<rparr> t of None \<Rightarrow> 0 | Some i \<Rightarrow> freq (t ! i))"

text \<open>
  Runs of ideographs, for the claims about them. \<open>ideographs buf p n\<close>: at offset \<open>p\<close> of the
  buffer stand \<open>n\<close> complete two-byte characters with an ideograph lead byte
  (\<^verbatim>\<open>is_big5word\<close>) and a trail byte other than NUL. \<open>run_end buf q\<close>: the byte at \<open>q\<close>, which
  may be the terminator, is no ideograph lead byte. \<open>run_tokens q buf p n\<close>: the \<open>n - 1\<close>
  bigrams of adjacent characters of the run, in order, and then, unless \<open>q\<close> holds, the
  last character followed by the two marker bytes \<open>0x21\<close>.
\<close>

fun ideographs :: "byte list \<Rightarrow> nat \<Rightarrow> nat \<Rightarrow> bool" where
  "ideographs buf p 0 = True"
| "ideographs buf p (Suc n) =
     (p + 1 < length buf \<and> is_big5word (buf ! p) \<and> buf ! (p + 1) \<noteq> 0 \<and> ideographs buf (p + 2) n)"

definition run_end :: "byte list \<Rightarrow> nat \<Rightarrow> bool" where
  "run_end buf q = (case rd buf q of None \<Rightarrow> False | Some b \<Rightarrow> \<not> is_big5word b)"

definition run_tokens :: "bool \<Rightarrow> byte list \<Rightarrow> nat \<Rightarrow> nat \<Rightarrow> byte list list" where
  "run_tokens q buf p n =
     map (\<lambda>i. take 4 (drop (p + 2 * i) buf)) [0..<n - 1] @
     (if q then [] else [take 2 (drop (p + 2 * (n - 1)) buf) @ [0x21, 0x21]])"

text \<open>
  \<open>is_cjk en\<close> is the test \<^verbatim>\<open>is_big5(en->word)\<close> of the emitters. \<open>tree_sorted\<close>: the
  table's entries stand in strictly ascending order of \<^verbatim>\<open>wordcmp\<close>.
\<close>

definition is_cjk :: "entry \<Rightarrow> bool" where
  "is_cjk en = (case rd (word en) 0 of None \<Rightarrow> False | Some b \<Rightarrow> is_big5 b)"

definition tree_sorted :: "entry list \<Rightarrow> bool" where
  "tree_sorted t = sorted_wrt (\<lambda>a b. wordcmp a b < 0) t"

text \<open>
  What the delimited emitter is claimed to hand to the callback, in the words of the
  claims. \<open>cjk4 e\<close>: the word of \<open>e\<close> is a CJK token as the tokenizer makes them, four
  bytes, none of them NUL, the first a lead byte. \<open>prefix2\<close> is the key of the group of an
  entry, \<open>triple\<close> the three bytes it adds to the group: its last two bytes and the emitted
  frequency. \<open>groups\<close> cuts a list of entries into its maximal runs of entries with the same
  \<open>prefix2\<close>. \<open>group_call d g\<close> is the one invocation for a group \<open>g\<close> under the delimiter
  \<open>d\<close>, \<open>ascii_call d e\<close> the invocation for an ASCII entry.
\<close>

definition cjk4 :: "entry \<Rightarrow> bool" where
  "cjk4 e = (length (word e) = 4 \<and> is_big5 (hd (word e)) \<and> 0 \<notin> set (word e))"

definition prefix2 :: "entry \<Rightarrow> byte list" where
  "prefix2 e = take 2 (word e)"

definition triple :: "entry \<Rightarrow> byte list" where
  "triple e = drop 2 (word e) @ [ucast (emitted (freq e))]"

definition group_call :: "byte list \<Rightarrow> entry list \<Rightarrow> call" where
  "group_call d g =
     \<lparr>arg1 = prefix2 (hd g), arg2 = Bytes (d @ concat (map triple g)),
      arg3 = of_nat (4 + 3 * length g)\<rparr>"

definition ascii_call :: "byte list \<Rightarrow> entry \<Rightarrow> call" where
  "ascii_call d e =
     \<lparr>arg1 = word e, arg2 = Bytes (d @ [0x20, 0x20, ucast (emitted (freq e))]), arg3 = 7\<rparr>"

function groups :: "entry list \<Rightarrow> entry list list" where
  "groups [] = []"
| "groups (e # es) =
     (e # takeWhile (\<lambda>x. prefix2 x = prefix2 e) es) #
     groups (dropWhile (\<lambda>x. prefix2 x = prefix2 e) es)"
  by pat_completeness auto
termination
  by (relation "measure length") (simp_all add: le_imp_less_Suc length_dropWhile_le)

text \<open>\<open>group_open d g s\<close>: in the state \<open>s\<close> the group \<open>g\<close> is open: \<^verbatim>\<open>last\<close> is its last
  entry, \<^verbatim>\<open>key\<close> holds its prefix, and the bytes from \<^verbatim>\<open>val\<close> to \<^verbatim>\<open>valp\<close> are the delimiter and
  the triples of \<open>g\<close>.\<close>

definition group_open :: "byte list \<Rightarrow> entry list \<Rightarrow> globals \<Rightarrow> bool" where
  "group_open d g s =
     (g \<noteq> [] \<and> (\<forall>e\<in>set g. cjk4 e \<and> prefix2 e = prefix2 (hd g)) \<and>
      last_en s = Some (last g) \<and> key_string (key s) = prefix2 (hd g) \<and>
      valp s + 1 = 4 + 3 * length g \<and>
      map (val s) [0..<valp s + 1] = d @ concat (map triple g) \<and>
      map (delim s) [0..<4] = d)"

text \<open>
  A group too long for \<^verbatim>\<open>val\<close>: the 10965 bigrams that begin with the character \<open>0xa4 0x40\<close>
  and go on with one of 43 * 255 different characters, in the table's order, each seen
  once. A buffer in which \<open>0xa4 0x40\<close> stands before each of those characters gives a
  table with this group.
\<close>

definition big_group :: "entry list" where
  "big_group =
     map (\<lambda>(a, b). \<lparr>word = [0xa4, 0x40, of_nat a, of_nat b], freq = 1\<rparr>)
       (List.product [165..<208] [1..<256])"

text \<open>
  What the tokenizer leaves alone: \<^verbatim>\<open>query\<close>, the callback's log, \<^verbatim>\<open>val\<close>, \<^verbatim>\<open>valp\<close>,
  \<^verbatim>\<open>delim\<close> and \<^verbatim>\<open>last\<close>.
\<close>

definition untouched :: "globals \<Rightarrow> globals \<Rightarrow> bool" where
  "untouched s s' =
     (query s' = query s \<and> calls s' = calls s \<and> val s' = val s \<and> valp s' = valp s \<and>
      delim s' = delim s \<and> last_en s' = last_en s)"

text \<open>
  A call of the callback whose value begins with the four bytes \<open>d\<close>; and the state of
  the delimited emitter between two entries when \<^verbatim>\<open>delim\<close> holds \<open>d\<close>: an open group has
  \<open>d\<close> at the start of \<^verbatim>\<open>val\<close>.
\<close>

definition starts_with :: "byte list \<Rightarrow> call \<Rightarrow> bool" where
  "starts_with d c = (case arg2 c of Bytes v \<Rightarrow> take 4 v = d | Number n \<Rightarrow> False)"

definition delim_kept :: "byte list \<Rightarrow> globals \<Rightarrow> bool" where
  "delim_kept d s =
     (map (delim s) [0..<4] = d \<and> (last_en s \<noteq> None \<longrightarrow> 3 \<le> valp s \<and> map (val s) [0..<4] = d))"

text \<open>
  Two states between two entries of a traversal, for the comparison of two runs. For
  \<^verbatim>\<open>cb_pair\<close> and \<^verbatim>\<open>cb_word\<close> they have the same \<^verbatim>\<open>query\<close>. For \<^verbatim>\<open>cb_delim\<close> they also have
  the same \<^verbatim>\<open>last\<close> and delimiter, and when a group is open the same \<^verbatim>\<open>valp\<close>, the same
  string in \<^verbatim>\<open>key\<close> and the same bytes of \<^verbatim>\<open>val\<close> up to \<^verbatim>\<open>valp\<close>.
\<close>

definition same_group :: "globals \<Rightarrow> globals \<Rightarrow> bool" where
  "same_group s t =
     (query t = query s \<and> last_en t = last_en s \<and>
      map (delim t) [0..<4] = map (delim s) [0..<4] \<and>
      (last_en s \<noteq> None \<longrightarrow>
         valp t = valp s \<and> key_string (key t) = key_string (key s) \<and>
         (\<forall>i\<le>valp s. val t i = val s i)))"

definition same_query :: "globals \<Rightarrow> globals \<Rightarrow> bool" where
  "same_query s t = (query t = query s)"

text \<open>
  \<open>lowered q b b'\<close>: the buffer \<open>b'\<close> is \<open>b\<close> with some upper-case letters at or after \<open>q\<close>
  replaced by their lower-case letters. \<open>token_start w\<close>: the word \<open>w\<close> starts with a byte
  that \<^verbatim>\<open>is_alnum\<close> or \<^verbatim>\<open>is_big5word\<close> accepts.
\<close>

definition lowered :: "nat \<Rightarrow> byte list \<Rightarrow> byte list \<Rightarrow> bool" where
  "lowered q b b' =
     (length b' = length b \<and> (\<forall>i<q. b' ! i = b ! i) \<and>
      (\<forall>i. b' ! i = b ! i \<or> (is_upper (b ! i) \<and> b' ! i = lower (b ! i))))"

definition token_start :: "byte list \<Rightarrow> bool" where
  "token_start w = (case w of [] \<Rightarrow> False | b # r \<Rightarrow> is_alnum b \<or> is_big5word b)"

definition table_starts :: "entry list \<Rightarrow> bool" where
  "table_starts t = (\<forall>e\<in>set t. token_start (word e))"

section \<open>The encoding classifier: properties\<close>

lemma is_alnum_iff:
  "is_alnum b \<longleftrightarrow>
     (0x61 \<le> b \<and> b \<le> 0x7a) \<or> (0x41 \<le> b \<and> b \<le> 0x5a) \<or> (0x31 \<le> b \<and> b \<le> 0x3a)"
  unfolding is_alnum_def by (simp add: word_less_nat_alt word_le_nat_alt) arith

text \<open>
  Claim C4 says that \<open>is_alnum\<close> holds exactly for the ASCII letters and the digits
  \<open>0\<close> to \<open>9\<close>. The third range of the macro is \<open>0x30 < b < 0x3b\<close>: it leaves out the digit
  \<open>0\<close> (\<open>0x30\<close>) and takes in the colon (\<open>0x3a\<close>).
\<close>

theorem is_alnum_digit_zero_and_colon:
  "\<not> is_alnum 0x30 \<and> is_alnum 0x3a"
  by (simp add: is_alnum_def)

section \<open>The frequency table: properties\<close>

lemma uint_diff_zero: "uint x - uint y = 0 \<longleftrightarrow> x = y" for x y :: byte
  using word_uint_eq_iff [of x y] by auto

lemma uint_eq_iff: "uint x = uint y \<longleftrightarrow> x = y" for x y :: byte
  using word_uint_eq_iff [of x y] by auto

lemma wordcmp_key [simp]: "wordcmp \<lparr>word = x, freq = f\<rparr> e = strcmp x (word e)"
  by (simp add: wordcmp_def)

lemma strcmp_refl [simp]: "strcmp a a = 0"
  by (induction a) simp_all

lemma strcmp_zero_takeWhile:
  "strcmp a c = 0 \<Longrightarrow> 0 \<notin> set a \<Longrightarrow> a = takeWhile (\<lambda>b. b \<noteq> 0) c"
  by (induction a c rule: strcmp.induct)
     (auto simp: uint_0_iff uint_diff_zero uint_eq_iff split: if_splits)

lemma strcmp_zero_iff:
  "0 \<notin> set a \<Longrightarrow> 0 \<notin> set b \<Longrightarrow> strcmp a b = 0 \<longleftrightarrow> a = b"
  by (induction a b rule: strcmp.induct) (auto simp: uint_0_iff uint_diff_zero uint_eq_iff)

lemma stored_count_Nil [simp]: "stored_count [] w = 0"
  by (simp add: stored_count_def)

lemma stored_count_Cons:
  "stored_count (y # ys) w = (if strcmp w (word y) = 0 then freq y else stored_count ys w)"
  by (simp add: stored_count_def split: option.splits)

lemma tree_srch_None_iff:
  "tree_srch cmp k t = None \<longleftrightarrow> (\<forall>e\<in>set t. cmp k e \<noteq> 0)"
  by (induction t) auto

lemma stored_count_tree_add:
  assumes "\<forall>e\<in>set t. strcmp x (word e) \<noteq> 0" "0 \<notin> set x" "0 \<notin> set w"
  shows "stored_count (tree_add wordcmp \<lparr>word = x, freq = 1\<rparr> t) w =
         (if w = x then 1 else stored_count t w)"
  using assms
  by (induction t) (auto simp: stored_count_Cons strcmp_zero_iff)

lemma stored_count_increment:
  assumes "tree_srch wordcmp \<lparr>word = x, freq = 0\<rparr> t = Some i" "0 \<notin> set x" "0 \<notin> set w"
  shows "stored_count (t[i := (t ! i)\<lparr>freq := freq (t ! i) + 1\<rparr>]) w =
         (if w = x then stored_count t w + 1 else stored_count t w)"
  using assms
proof (induction t arbitrary: i)
  case Nil
  then show ?case by simp
next
  case (Cons y ys)
  show ?case
  proof (cases "strcmp x (word y) = 0")
    case True
    with Cons.prems have i: "i = 0" by simp
    from True Cons.prems have x: "x = takeWhile (\<lambda>b. b \<noteq> 0) (word y)"
      by (simp add: strcmp_zero_takeWhile)
    have "strcmp w (word y) = 0 \<longleftrightarrow> w = x"
      using x True strcmp_zero_takeWhile [of w "word y"] Cons.prems by auto
    then show ?thesis using i True by (simp add: stored_count_Cons)
  next
    case False
    with Cons.prems obtain j
      where j: "i = Suc j" "tree_srch wordcmp \<lparr>word = x, freq = 0\<rparr> ys = Some j"
      by auto
    have "strcmp w (word y) = 0 \<Longrightarrow> w \<noteq> x" using False by auto
    with Cons.IH [OF j(2) Cons.prems(2,3)] j show ?thesis
      by (auto simp: stored_count_Cons)
  qed
qed

lemma stored_count_addentry:
  "0 \<notin> set x \<Longrightarrow> 0 \<notin> set w \<Longrightarrow>
   stored_count (addentry x t) w = (if w = x then stored_count t w + 1 else stored_count t w)"
proof (cases "tree_srch wordcmp \<lparr>word = x, freq = 0\<rparr> t")
  case None
  assume "0 \<notin> set x" "0 \<notin> set w"
  moreover from None have "\<forall>e\<in>set t. strcmp x (word e) \<noteq> 0"
    by (simp add: tree_srch_None_iff)
  moreover from None have "stored_count t x = 0"
    by (simp add: stored_count_def)
  ultimately show ?thesis using None
    by (simp add: addentry_def stored_count_tree_add)
next
  case (Some i)
  assume "0 \<notin> set x" "0 \<notin> set w"
  with Some show ?thesis
    by (simp add: addentry_def stored_count_increment)
qed

lemma stored_count_fold:
  "\<forall>x\<in>set toks. 0 \<notin> set x \<Longrightarrow> 0 \<notin> set w \<Longrightarrow>
   stored_count (fold addentry toks t) w = stored_count t w + of_nat (count_list toks w)"
  by (induction toks arbitrary: t) (simp_all add: stored_count_addentry)

lemma count_list_replicate: "count_list (replicate n x) x = n"
  by (induction n) simp_all

section \<open>The emitters: properties\<close>

lemma unat_emitted: "unat (emitted c) = min (unat c) 163"
  by (simp add: emitted_def word_less_nat_alt min_def)

lemma unat_ucast_emitted: "unat (ucast (emitted c) :: byte) = min (unat c) 163"
proof -
  have "unat (emitted c) < 2 ^ 8" by (simp add: unat_emitted min_def)
  then have "unat (ucast (emitted c) :: byte) = unat (emitted c)"
    by (simp add: unsigned_ucast_eq take_bit_nat_eq_self)
  then show ?thesis by (simp add: unat_emitted)
qed

lemma cb_pair_arg3:
  "cb_pair en s = Some s' \<Longrightarrow> arg3 (last (calls s')) = emitted (freq en)"
  by (auto simp: cb_pair_def cb_def bind_eq_Some_conv Let_def split: option.splits if_splits)

lemma cb_word_arg3:
  "cb_word ord en s = Some s' \<Longrightarrow> arg3 (last (calls s')) = emitted (freq en)"
  by (auto simp: cb_word_def cb_def Let_def split: option.splits if_splits)

lemma open_group_byte:
  "open_group en s = Some s' \<Longrightarrow> val s' (valp s') = ucast (emitted (freq en))"
  by (auto simp: open_group_def bind_eq_Some_conv Let_def)

lemma cb_delim_byte:
  "cb_delim en s = Some s' \<Longrightarrow> val s' (valp s') = ucast (emitted (freq en))"
  by (auto simp: cb_delim_def flush_group_def cb_def bind_eq_Some_conv Let_def
           split: option.splits if_splits dest!: open_group_byte)

lemma stored_count_tree_add_same:
  "\<forall>e\<in>set t. strcmp w (word e) \<noteq> 0 \<Longrightarrow>
   stored_count (tree_add wordcmp \<lparr>word = w, freq = 1\<rparr> t) w = 1"
  by (induction t) (auto simp: stored_count_Cons)

lemma stored_count_increment_same:
  "tree_srch wordcmp \<lparr>word = w, freq = 0\<rparr> t = Some i \<Longrightarrow>
   stored_count (t[i := (t ! i)\<lparr>freq := freq (t ! i) + 1\<rparr>]) w = stored_count t w + 1"
proof (induction t arbitrary: i)
  case Nil
  then show ?case by simp
next
  case (Cons y ys)
  then show ?case
    by (cases "strcmp w (word y) = 0") (auto simp: stored_count_Cons)
qed

lemma stored_count_addentry_same:
  "stored_count (addentry w t) w = stored_count t w + 1"
proof (cases "tree_srch wordcmp \<lparr>word = w, freq = 0\<rparr> t")
  case None
  then have "\<forall>e\<in>set t. strcmp w (word e) \<noteq> 0"
    by (simp add: tree_srch_None_iff)
  moreover from None have "stored_count t w = 0"
    by (simp add: stored_count_def)
  ultimately show ?thesis using None
    by (simp add: addentry_def stored_count_tree_add_same)
next
  case (Some i)
  then show ?thesis
    by (simp add: addentry_def stored_count_increment_same)
qed

text \<open>
  Claim C3, as the code has it. Each of the three emitters hands on the count capped at
  163: \<^verbatim>\<open>cb_pair\<close> and \<^verbatim>\<open>cb_word\<close> as the callback's third argument, \<^verbatim>\<open>cb_delim\<close> as the byte it
  writes at \<^verbatim>\<open>valp\<close>. \<^verbatim>\<open>addentry\<close> adds one to the stored count with no cap, in an
  \<^verbatim>\<open>unsigned int\<close>: a word that occurs fewer than \<open>2^32\<close> times in the sequence of words added
  has its number of occurrences stored, and the minimum of that number and 163 emitted.
  The words are C strings, so they hold no NUL.
\<close>

theorem frequency_capped_on_emission_only:
  "(cb_pair en s = Some s' \<longrightarrow> unat (arg3 (last (calls s'))) = min (unat (freq en)) 163) \<and>
   (cb_word ord en s = Some s' \<longrightarrow> unat (arg3 (last (calls s'))) = min (unat (freq en)) 163) \<and>
   (cb_delim en s = Some s' \<longrightarrow> unat (val s' (valp s')) = min (unat (freq en)) 163) \<and>
   stored_count (addentry w t) w = stored_count t w + 1 \<and>
   ((\<forall>x\<in>set toks. 0 \<notin> set x) \<and> 0 \<notin> set w \<and> count_list toks w < 2 ^ 32 \<longrightarrow>
      unat (stored_count (fold addentry toks tree_init) w) = count_list toks w \<and>
      unat (emitted (stored_count (fold addentry toks tree_init) w)) = min (count_list toks w) 163)"
proof -
  have stored: "unat (stored_count (fold addentry toks tree_init) w) = count_list toks w"
    if "\<forall>x\<in>set toks. 0 \<notin> set x" "0 \<notin> set w" "count_list toks w < 2 ^ 32"
  proof -
    from that have "stored_count (fold addentry toks tree_init) w = of_nat (count_list toks w)"
      by (simp add: stored_count_fold tree_init_def)
    with that(3) show ?thesis
      by (simp add: unat_of_nat)
  qed
  show ?thesis
    by (simp add: cb_pair_arg3 cb_word_arg3 cb_delim_byte unat_emitted unat_ucast_emitted stored
        stored_count_addentry_same)
qed

text \<open>The theorem at an entry with count 1000 and at a word added 1000 times.\<close>

theorem frequency_capped_on_emission_only_witness:
  "unat (arg3 (last (calls (the (cb_pair \<lparr>word = [0xa4, 0x41, 0xa4, 0x42], freq = 1000\<rparr> initial_globals)))))
     = 163 \<and>
   unat (arg3 (last (calls (the (cb_word Right_To_Left \<lparr>word = [0xa4, 0x41, 0xa4, 0x42], freq = 1000\<rparr>
     initial_globals))))) = 163 \<and>
   unat (val (the (cb_delim \<lparr>word = [0xa4, 0x41, 0xa4, 0x42], freq = 1000\<rparr> initial_globals))
     (valp (the (cb_delim \<lparr>word = [0xa4, 0x41, 0xa4, 0x42], freq = 1000\<rparr> initial_globals)))) = 163 \<and>
   unat (stored_count (fold addentry (replicate 1000 [0x68, 0x69]) tree_init) [0x68, 0x69]) = 1000 \<and>
   unat (emitted (stored_count (fold addentry (replicate 1000 [0x68, 0x69]) tree_init) [0x68, 0x69]))
     = 163"
proof -
  let ?e = "\<lparr>word = [0xa4, 0x41, 0xa4, 0x42], freq = 1000\<rparr> :: entry"
  have p: "cb_pair ?e initial_globals = Some (the (cb_pair ?e initial_globals))"
    by (simp add: cb_pair_def rd_def is_big5_def bytes_at_def)
  have w: "cb_word Right_To_Left ?e initial_globals
           = Some (the (cb_word Right_To_Left ?e initial_globals))"
    by (simp add: cb_word_def rd_def is_big5_def)
  have d: "cb_delim ?e initial_globals = Some (the (cb_delim ?e initial_globals))"
    by (simp add: cb_delim_def rd_def is_big5_def open_group_def bytes_at_def initial_globals_def)
  have c: "count_list (replicate 1000 [0x68, 0x69 :: byte]) [0x68, 0x69] = 1000"
    by (rule count_list_replicate)
  show ?thesis
    using frequency_capped_on_emission_only [of ?e initial_globals "the (cb_pair ?e initial_globals)"
        Right_To_Left "[0x68, 0x69]" "[]" "replicate 1000 [0x68, 0x69]"]
      frequency_capped_on_emission_only [of ?e initial_globals
        "the (cb_word Right_To_Left ?e initial_globals)"
        Right_To_Left "[0x68, 0x69]" "[]" "replicate 1000 [0x68, 0x69]"]
      frequency_capped_on_emission_only [of ?e initial_globals "the (cb_delim ?e initial_globals)"
        Right_To_Left "[0x68, 0x69]" "[]" "replicate 1000 [0x68, 0x69]"]
      p w d c
    by simp
qed

text \<open>
  Claim C3 as stated fails where the \<^verbatim>\<open>unsigned int\<close> wraps: a word added \<open>2^32\<close> times
  (more than 163 times) has the stored count 0, and 0 is what the emitters pass on.
\<close>

theorem stored_count_wraps_at_2_32:
  "stored_count (fold addentry (replicate (2 ^ 32) [0x68, 0x69]) tree_init) [0x68, 0x69] = 0 \<and>
   emitted (stored_count (fold addentry (replicate (2 ^ 32) [0x68, 0x69]) tree_init) [0x68, 0x69]) = 0"
proof -
  let ?hi = "[0x68, 0x69] :: byte list"
  have nul: "0 \<notin> set ?hi" by simp
  then have all: "\<forall>x\<in>set (replicate (2 ^ 32) ?hi). 0 \<notin> set x"
    by (simp only: set_replicate_conv_if split: if_splits) simp
  have "stored_count (fold addentry (replicate (2 ^ 32) ?hi) tree_init) ?hi
        = stored_count tree_init ?hi + of_nat (count_list (replicate (2 ^ 32) ?hi) ?hi)"
    using all nul by (rule stored_count_fold)
  also have "\<dots> = of_nat (2 ^ 32)"
    by (simp only: count_list_replicate tree_init_def stored_count_Nil add_0_left)
  also have "\<dots> = (0 :: u32)"
    by simp
  finally show ?thesis by (simp add: emitted_def)
qed

text \<open>
  The word emitter, for both orders of evaluating the arguments of
  \<^verbatim>\<open>cb(strcat(en->word, "  "), (char *)strlen(en->word)+2, ...)\<close>.
\<close>

lemma cb_word_big5:
  "word en \<noteq> [] \<Longrightarrow> is_big5 (hd (word en)) \<Longrightarrow>
   cb_word ord en s = Some (cb (word en) (Number 4) (emitted (freq en)) s)"
  by (cases "word en") (simp_all add: cb_word_def rd_def)

lemma cb_word_ascii:
  "\<not> is_big5 (hd (word en @ [0])) \<Longrightarrow>
   cb_word ord en s = Some (cb (word en @ [0x20, 0x20])
      (Number (case ord of Left_To_Right \<Rightarrow> length (word en) + 4 | Right_To_Left \<Rightarrow> length (word en) + 2))
      (emitted (freq en)) s)"
  by (cases "word en"; cases ord) (simp_all add: cb_word_def rd_def eval_nat_numeral)


text \<open>
  Claim C8 says that for an ASCII token of length \<open>L\<close> the word emitter passes the token
  padded with two blanks and \<open>L + 2\<close>. For a CJK token the second argument is 4 and the
  padding is as claimed (\<open>cb_word_big5\<close>, \<open>cb_word_ascii\<close>). The length is \<open>L + 2\<close> only when
  \<^verbatim>\<open>strlen\<close> is evaluated before \<^verbatim>\<open>strcat\<close>; evaluated left to right, the call passes
  \<open>L + 4\<close>: for the token \<open>hi\<close>, 6 and not 4.
\<close>

theorem cb_word_length_depends_on_argument_order:
  "calls (the (cb_word Left_To_Right \<lparr>word = [0x68, 0x69], freq = 1\<rparr> s)) =
     calls s @ [\<lparr>arg1 = [0x68, 0x69, 0x20, 0x20], arg2 = Number 6, arg3 = 1\<rparr>] \<and>
   calls (the (cb_word Right_To_Left \<lparr>word = [0x68, 0x69], freq = 1\<rparr> s)) =
     calls s @ [\<lparr>arg1 = [0x68, 0x69, 0x20, 0x20], arg2 = Number 4, arg3 = 1\<rparr>]"
  by (simp add: cb_word_def rd_def is_big5_def cb_def emitted_def)

section \<open>The tokenizer: properties\<close>

lemma c_string_exact:
  "(\<forall>j<length bs. m (i + j) = bs ! j) \<Longrightarrow> 0 \<notin> set bs \<Longrightarrow> m (i + length bs) = 0 \<Longrightarrow>
   length bs < n \<Longrightarrow> c_string m i n = bs"
proof (induction bs arbitrary: i n)
  case Nil
  then show ?case by (cases n) simp_all
next
  case (Cons b bs)
  from Cons.prems(4) obtain n' where n: "n = Suc n'" "length bs < n'"
    by (cases n) auto
  from Cons.prems(1) have hd: "m i = b" by force
  have tl: "\<forall>j<length bs. m (Suc i + j) = bs ! j"
    using Cons.prems(1) by force
  have "c_string m (Suc i) n' = bs"
    using Cons.IH [OF tl _ _ n(2)] Cons.prems(2,3) by simp
  with hd n Cons.prems(2) show ?case by auto
qed

lemma key_string_memcpy:
  "length bs \<le> MAXKEY \<Longrightarrow> 0 \<notin> set bs \<Longrightarrow> k (length bs) = 0 \<Longrightarrow>
   key_string (memcpy k 0 bs) = bs"
  unfolding key_string_def
  by (rule c_string_exact) (simp_all add: memcpy_def)

lemma strncpy_src_exact:
  "off + n \<le> length w \<Longrightarrow> 0 \<notin> set (take n (drop off w)) \<Longrightarrow>
   strncpy_src w off n = Some (take n (drop off w))"
proof -
  assume len: "off + n \<le> length w" and nul: "0 \<notin> set (take n (drop off w))"
  have "takeWhile (\<lambda>b. b \<noteq> 0) (take n (drop off w)) = take n (drop off w)"
    using nul by (simp add: takeWhile_eq_all_conv) metis
  moreover have "length (take n (drop off w)) = n"
    using len by simp
  ultimately have "takeWhile (\<lambda>b. b \<noteq> 0) (take n (drop off w)) @
      replicate (n - length (takeWhile (\<lambda>b. b \<noteq> 0) (take n (drop off w)))) 0
      = take n (drop off w)"
    by (simp only: diff_self_eq_0 replicate_0 append_Nil2)
  moreover have "off \<le> length w" using len by simp
  ultimately show ?thesis
    unfolding strncpy_src_def Let_def by (simp only: if_True)
qed

lemma memcpy_outside: "off + length bs \<le> i \<Longrightarrow> memcpy m off bs i = m i"
  by (simp add: memcpy_def)

lemma memcpy_before: "i < off \<Longrightarrow> memcpy m off bs i = m i"
  by (simp add: memcpy_def)

lemma memcpy_inside: "off \<le> i \<Longrightarrow> i < off + length bs \<Longrightarrow> memcpy m off bs i = bs ! (i - off)"
  by (simp add: memcpy_def)

lemma take4_drop:
  "p + 3 < length buf \<Longrightarrow> take 4 (drop p buf) = [buf ! p, buf ! (p + 1), buf ! (p + 2), buf ! (p + 3)]"
  by (rule nth_equalityI) (auto simp: nth_Cons' less_Suc_eq_0_disj numeral_eq_Suc)

lemma take2_drop:
  "p + 1 < length buf \<Longrightarrow> take 2 (drop p buf) = [buf ! p, buf ! (p + 1)]"
  by (rule nth_equalityI) (auto simp: nth_Cons' less_Suc_eq_0_disj numeral_eq_Suc)

lemma is_big5word_nonzero: "is_big5word b \<Longrightarrow> b \<noteq> 0"
  by (auto simp: is_big5word_def)

lemma is_big5word_is_big5: "is_big5word b \<Longrightarrow> is_big5 b"
  by (simp add: is_big5word_def is_big5_def word_less_nat_alt)

lemma ideographs_nth:
  "ideographs buf p n \<Longrightarrow> k < n \<Longrightarrow>
   p + 2 * k + 1 < length buf \<and> is_big5word (buf ! (p + 2 * k)) \<and> buf ! (p + 2 * k + 1) \<noteq> 0"
proof (induction n arbitrary: p k)
  case 0
  then show ?case by simp
next
  case (Suc n)
  show ?case
  proof (cases k)
    case 0
    with Suc.prems show ?thesis by simp
  next
    case (Suc k')
    with Suc.prems Suc.IH [of "p + 2" k'] show ?thesis by (simp add: add.commute add.left_commute)
  qed
qed

lemma rd_inside: "i < length buf \<Longrightarrow> rd buf i = Some (buf ! i)"
  by (simp add: rd_def)

lemma addentry_key_bigram:
  assumes "p + 3 < length buf" "buf ! p \<noteq> 0" "buf ! (p + 1) \<noteq> 0" "buf ! (p + 2) \<noteq> 0"
    "buf ! (p + 3) \<noteq> 0" "key s 4 = 0"
  shows "strncpy_src buf p 4 = Some (take 4 (drop p buf))"
    and "wordtree (addentry_key (s\<lparr>key := memcpy (key s) 0 (take 4 (drop p buf))\<rparr>))
         = addentry (take 4 (drop p buf)) (wordtree s)"
    and "key (addentry_key (s\<lparr>key := memcpy (key s) 0 (take 4 (drop p buf))\<rparr>)) 4 = 0"
    and "query (addentry_key (s\<lparr>key := memcpy (key s) 0 (take 4 (drop p buf))\<rparr>)) = query s"
proof -
  have t: "take 4 (drop p buf) = [buf ! p, buf ! (p + 1), buf ! (p + 2), buf ! (p + 3)]"
    using assms(1) by (rule take4_drop)
  show "strncpy_src buf p 4 = Some (take 4 (drop p buf))"
    using assms by (intro strncpy_src_exact) (simp_all add: t)
  have len4: "length (take 4 (drop p buf)) = 4"
    using assms(1) by simp
  have "key_string (memcpy (key s) 0 (take 4 (drop p buf))) = take 4 (drop p buf)"
  proof (rule key_string_memcpy)
    show "length (take 4 (drop p buf)) \<le> MAXKEY" by (simp add: MAXKEY_def)
    show "0 \<notin> set (take 4 (drop p buf))" using assms(2-5) by (simp add: t)
    show "key s (length (take 4 (drop p buf))) = 0" by (simp only: len4 assms(6))
  qed
  then show "wordtree (addentry_key (s\<lparr>key := memcpy (key s) 0 (take 4 (drop p buf))\<rparr>))
         = addentry (take 4 (drop p buf)) (wordtree s)"
    by (simp add: addentry_key_def)
  show "key (addentry_key (s\<lparr>key := memcpy (key s) 0 (take 4 (drop p buf))\<rparr>)) 4 = 0"
    using assms(1,6) by (simp add: addentry_key_def memcpy_outside)
  show "query (addentry_key (s\<lparr>key := memcpy (key s) 0 (take 4 (drop p buf))\<rparr>)) = query s"
    by (simp add: addentry_key_def)
qed

lemma big5_loop_run:
  assumes "ideographs buf (p + 2) m" "run_end buf (p + 2 + 2 * m)"
    "p + 1 < length buf" "buf ! p \<noteq> 0" "buf ! (p + 1) \<noteq> 0" "key s 4 = 0"
  shows "\<exists>s'. big5_loop buf p s = Some (p + 2 + 2 * m, s') \<and>
           wordtree s' = fold addentry (map (\<lambda>i. take 4 (drop (p + 2 * i) buf)) [0..<m]) (wordtree s) \<and>
           key s' 4 = 0 \<and> query s' = query s"
  using assms
proof (induction m arbitrary: p s)
  case 0
  then show ?case
    by (auto simp: big5_loop.simps [of buf p s] run_end_def split: option.splits)
next
  case (Suc m)
  from Suc.prems(1) have c: "p + 3 < length buf" "is_big5word (buf ! (p + 2))"
    "buf ! (p + 3) \<noteq> 0" "ideographs buf (p + 2 + 2) m"
    by (simp_all add: add.commute add.left_commute numeral_3_eq_3 eval_nat_numeral)
  let ?src = "take 4 (drop p buf)"
  let ?s1 = "addentry_key (s\<lparr>key := memcpy (key s) 0 ?src\<rparr>)"
  note big = addentry_key_bigram [OF c(1) Suc.prems(4,5) is_big5word_nonzero [OF c(2)] c(3) Suc.prems(6)]
  have rd2: "rd buf (p + 2) = Some (buf ! (p + 2))"
    using c(1) by (simp add: rd_def)
  have step: "big5_loop buf p s = big5_loop buf (p + 2) ?s1"
    by (subst big5_loop.simps) (simp only: rd2 option.case c(2) if_True big(1))
  have "run_end buf (p + 2 + 2 + 2 * m)"
    using Suc.prems(2) by (simp add: add.commute add.left_commute)
  from Suc.IH [OF c(4) this _ is_big5word_nonzero [OF c(2)] _ big(3)] c(1,3)
  obtain s' where s': "big5_loop buf (p + 2) ?s1 = Some (p + 2 + 2 + 2 * m, s')"
    "wordtree s' = fold addentry (map (\<lambda>i. take 4 (drop (p + 2 + 2 * i) buf)) [0..<m]) (wordtree ?s1)"
    "key s' 4 = 0" "query s' = query ?s1"
    by (auto simp: add.commute add.left_commute numeral_3_eq_3 eval_nat_numeral)
  have "map (\<lambda>i. take 4 (drop (p + 2 * i) buf)) [0..<Suc m]
        = ?src # map (\<lambda>i. take 4 (drop (p + 2 + 2 * i) buf)) [0..<m]"
    by (simp add: map_upt_Suc del: upt_Suc)
  with s' step big(2,4) show ?case
    by (auto simp del: upt_Suc)
qed


lemma ideographs_numeral:
  "ideographs buf p (numeral k) =
     (p + 1 < length buf \<and> is_big5word (buf ! p) \<and> buf ! (p + 1) \<noteq> 0 \<and>
      ideographs buf (p + 2) (pred_numeral k))"
  by (simp add: numeral_eq_Suc)

lemma ideographs_drop:
  "ideographs buf p (k + m) \<Longrightarrow> ideographs buf (p + 2 * k) m"
proof (induction k arbitrary: p)
  case 0
  then show ?case by simp
next
  case (Suc k)
  from Suc.prems have "ideographs buf (p + 2) (k + m)" by simp
  from Suc.IH [OF this] show ?case by (simp add: add.commute add.left_commute)
qed

lemma key_string_unigram:
  assumes "k 4 = 0" "c \<noteq> 0" "d \<noteq> 0"
  shows "key_string (memcpy (k(2 := 0x21, 3 := 0x21)) 0 [c, d]) = [c, d, 0x21, 0x21]"
  unfolding key_string_def
proof (rule c_string_exact)
  show "\<forall>j<length [c, d, 0x21, 0x21 :: byte].
          memcpy (k(2 := 0x21, 3 := 0x21)) 0 [c, d] (0 + j) = [c, d, 0x21, 0x21] ! j"
    by (auto simp: memcpy_def nth_Cons' less_Suc_eq numeral_eq_Suc)
  show "0 \<notin> set [c, d, 0x21, 0x21 :: byte]" using assms by simp
  show "memcpy (k(2 := 0x21, 3 := 0x21)) 0 [c, d] (0 + length [c, d, 0x21, 0x21 :: byte]) = 0"
    using assms(1) by (simp add: memcpy_def numeral_eq_Suc)
  show "length [c, d, 0x21, 0x21 :: byte] < Suc MAXKEY" by (simp add: MAXKEY_def)
qed

lemma addentry_key_unigram:
  assumes "r + 1 < length buf" "buf ! r \<noteq> 0" "buf ! (r + 1) \<noteq> 0" "key s 4 = 0"
  shows "strncpy_src buf r 2 = Some (take 2 (drop r buf))"
    and "wordtree (addentry_key (s\<lparr>key := memcpy ((key s)(2 := 0x21, 3 := 0x21)) 0 (take 2 (drop r buf))\<rparr>))
         = addentry (take 2 (drop r buf) @ [0x21, 0x21]) (wordtree s)"
proof -
  have t: "take 2 (drop r buf) = [buf ! r, buf ! (r + 1)]"
    using assms(1) by (rule take2_drop)
  show "strncpy_src buf r 2 = Some (take 2 (drop r buf))"
    using assms by (intro strncpy_src_exact) (simp_all add: t)
  show "wordtree (addentry_key (s\<lparr>key := memcpy ((key s)(2 := 0x21, 3 := 0x21)) 0 (take 2 (drop r buf))\<rparr>))
         = addentry (take 2 (drop r buf) @ [0x21, 0x21]) (wordtree s)"
    using key_string_unigram [of "key s" "buf ! r" "buf ! (r + 1)", OF assms(4,2,3)]
    by (simp add: addentry_key_def t)
qed

lemma big5_branch_ideograph_first:
  assumes "rd buf (p + 2) = Some c" "is_big5word c" "rd buf p = Some a" "is_big5word a"
    and "strncpy_src buf p 4 = Some src0"
    and "big5_loop buf (p + 2) (addentry_key (s\<lparr>key := memcpy ((key s)(4 := 0)) 0 src0\<rparr>))
         = Some (q, s3)"
    and "rd buf (q - 4) = Some d" "is_big5word d"
    and "strncpy_src buf (q - 2) 2 = Some src"
  shows "big5_branch buf p s =
           (if query s3 \<noteq> 0 then Some (q, s3)
            else Some (q, addentry_key (s3\<lparr>key := memcpy ((key s3)(2 := 0x21, 3 := 0x21)) 0 src\<rparr>)))"
  using assms by (simp add: big5_branch_def first_bigram_def trailing_unigram_def Let_def)

lemma big5_branch_symbol_first:
  assumes "rd buf (p + 2) = Some c" "is_big5word c" "rd buf p = Some a" "\<not> is_big5word a"
    and "big5_loop buf (p + 2) (s\<lparr>key := (key s)(4 := 0)\<rparr>) = Some (q, s3)"
    and "rd buf (q - 4) = Some d" "is_big5word d"
    and "strncpy_src buf (q - 2) 2 = Some src"
  shows "big5_branch buf p s =
           (if query s3 \<noteq> 0 then Some (q, s3)
            else Some (q, addentry_key (s3\<lparr>key := memcpy ((key s3)(2 := 0x21, 3 := 0x21)) 0 src\<rparr>)))"
  using assms by (simp add: big5_branch_def first_bigram_def trailing_unigram_def Let_def)


lemma run_at_scan_position:
  assumes n: "2 \<le> n" and run: "ideographs buf p n" and fin: "run_end buf (p + 2 * n)"
  shows "\<exists>s'. big5_branch buf p s = Some (p + 2 * n, s') \<and>
           wordtree s' = fold addentry (run_tokens (query s \<noteq> 0) buf p n) (wordtree s)"
proof -
  obtain m where m: "n = Suc (Suc m)"
    using n by (metis Suc_le_D numeral_2_eq_2 Suc_le_mono le0 Suc_le_D)
  from ideographs_nth [OF run, of 0] m
  have c0: "p + 1 < length buf" "is_big5word (buf ! p)" "buf ! (p + 1) \<noteq> 0" by simp_all
  from ideographs_nth [OF run, of 1] m
  have c1: "p + 3 < length buf" "is_big5word (buf ! (p + 2))" "buf ! (p + 3) \<noteq> 0"
    by (simp_all add: eval_nat_numeral)
  from ideographs_nth [OF run, of m] m
  have cm: "p + 2 * m + 1 < length buf" "is_big5word (buf ! (p + 2 * m))" by simp_all
  from ideographs_nth [OF run, of "Suc m"] m
  have cl: "p + 2 * Suc m + 1 < length buf" "is_big5word (buf ! (p + 2 * Suc m))"
    "buf ! (p + 2 * Suc m + 1) \<noteq> 0" by simp_all
  have rest: "ideographs buf (p + 2 + 2) m"
    using ideographs_drop [of buf p 2 m] run m by (simp add: eval_nat_numeral)
  let ?s0 = "s\<lparr>key := (key s)(4 := 0)\<rparr>"
  let ?src = "take 4 (drop p buf)"
  let ?s2 = "addentry_key (?s0\<lparr>key := memcpy (key ?s0) 0 ?src\<rparr>)"
  have k0: "key ?s0 4 = 0" by simp
  note big = addentry_key_bigram [OF c1(1) is_big5word_nonzero [OF c0(2)] c0(3)
      is_big5word_nonzero [OF c1(2)] c1(3) k0]
  have fin': "run_end buf (p + 2 + 2 + 2 * m)"
    using fin m by (simp add: add.commute add.left_commute)
  have "p + 2 + 1 < length buf" using c1(1) by (simp add: eval_nat_numeral)
  moreover have "buf ! (p + 2 + 1) \<noteq> 0" using c1(3) by (simp add: eval_nat_numeral)
  ultimately obtain s3 where s3: "big5_loop buf (p + 2) ?s2 = Some (p + 2 + 2 + 2 * m, s3)"
    "wordtree s3 = fold addentry (map (\<lambda>i. take 4 (drop (p + 2 + 2 * i) buf)) [0..<m]) (wordtree ?s2)"
    "key s3 4 = 0" "query s3 = query ?s2"
    using big5_loop_run [OF rest fin' _ is_big5word_nonzero [OF c1(2)] _ big(3)] by blast
  let ?q = "p + 2 + 2 + 2 * m"
  have q: "?q = p + 2 * n" and q4: "?q - 4 = p + 2 * m" and q2: "?q - 2 = p + 2 * Suc m"
    using m by simp_all
  have loop: "big5_loop buf (p + 2)
      (addentry_key (s\<lparr>key := memcpy ((key s)(4 := 0)) 0 ?src\<rparr>)) = Some (?q, s3)"
    using s3(1) by simp
  note uni = addentry_key_unigram [OF cl(1) is_big5word_nonzero [OF cl(2)] cl(3) s3(3)]
  have branch: "big5_branch buf p s =
      (if query s3 \<noteq> 0 then Some (?q, s3)
       else Some (?q, addentry_key (s3\<lparr>key := memcpy ((key s3)(2 := 0x21, 3 := 0x21)) 0
              (take 2 (drop (p + 2 * Suc m) buf))\<rparr>)))"
  proof (rule big5_branch_ideograph_first [OF _ c1(2) _ c0(2) big(1) loop])
    show "rd buf (p + 2) = Some (buf ! (p + 2))" using c1(1) by (simp add: rd_def)
    show "rd buf p = Some (buf ! p)" using c0(1) by (simp add: rd_def)
    show "rd buf (?q - 4) = Some (buf ! (p + 2 * m))"
      using cm(1) by (simp only: q4) (simp add: rd_def)
    show "is_big5word (buf ! (p + 2 * m))" by (rule cm(2))
    show "strncpy_src buf (?q - 2) 2 = Some (take 2 (drop (p + 2 * Suc m) buf))"
      using uni(1) by (simp only: q2)
  qed
  have bigrams: "map (\<lambda>i. take 4 (drop (p + 2 * i) buf)) [0..<n - 1]
        = ?src # map (\<lambda>i. take 4 (drop (p + 2 + 2 * i) buf)) [0..<m]"
    using m by (simp add: map_upt_Suc del: upt_Suc)
  have tree3: "wordtree s3 = fold addentry (map (\<lambda>i. take 4 (drop (p + 2 * i) buf)) [0..<n - 1]) (wordtree s)"
  proof -
    have "wordtree s3 = fold addentry
        (?src # map (\<lambda>i. take 4 (drop (p + 2 + 2 * i) buf)) [0..<m]) (wordtree s)"
      using s3(2) big(2) by simp
    then show ?thesis by (simp only: bigrams)
  qed
  have qs: "query s3 = query s" using s3(4) big(4) by simp
  show ?thesis
  proof (cases "query s = 0")
    case True
    with branch qs uni(2) tree3 m show ?thesis
      by (simp add: run_tokens_def q del: upt_Suc)
  next
    case False
    with branch qs tree3 m show ?thesis
      by (simp add: run_tokens_def q del: upt_Suc)
  qed
qed


lemma run_after_symbol:
  assumes n: "2 \<le> n" and a: "rd buf p = Some a" "\<not> is_big5word a"
    and run: "ideographs buf (p + 2) n" and fin: "run_end buf (p + 2 + 2 * n)"
  shows "\<exists>s'. big5_branch buf p s = Some (p + 2 + 2 * n, s') \<and>
           wordtree s' = fold addentry (run_tokens (query s \<noteq> 0) buf (p + 2) n) (wordtree s)"
proof -
  obtain m where m: "n = Suc (Suc m)"
    using n by (metis Suc_le_D numeral_2_eq_2 Suc_le_mono le0 Suc_le_D)
  from ideographs_nth [OF run, of 0] m
  have c0: "p + 2 + 1 < length buf" "is_big5word (buf ! (p + 2))" "buf ! (p + 2 + 1) \<noteq> 0"
    by simp_all
  from ideographs_nth [OF run, of m] m
  have cm: "p + 2 + 2 * m + 1 < length buf" "is_big5word (buf ! (p + 2 + 2 * m))" by simp_all
  from ideographs_nth [OF run, of "Suc m"] m
  have cl: "p + 2 + 2 * Suc m + 1 < length buf" "is_big5word (buf ! (p + 2 + 2 * Suc m))"
    "buf ! (p + 2 + 2 * Suc m + 1) \<noteq> 0" by simp_all
  have rest: "ideographs buf (p + 2 + 2) (Suc m)"
    using ideographs_drop [of buf "p + 2" 1 "Suc m"] run m by simp
  let ?s0 = "s\<lparr>key := (key s)(4 := 0)\<rparr>"
  have k0: "key ?s0 4 = 0" by simp
  have fin': "run_end buf (p + 2 + 2 + 2 * Suc m)"
    using fin m by (simp add: add.commute add.left_commute)
  obtain s3 where s3: "big5_loop buf (p + 2) ?s0 = Some (p + 2 + 2 + 2 * Suc m, s3)"
    "wordtree s3 = fold addentry (map (\<lambda>i. take 4 (drop (p + 2 + 2 * i) buf)) [0..<Suc m]) (wordtree ?s0)"
    "key s3 4 = 0" "query s3 = query ?s0"
    using big5_loop_run [OF rest fin' c0(1) is_big5word_nonzero [OF c0(2)] c0(3) k0] by blast
  let ?q = "p + 2 + 2 + 2 * Suc m"
  have q: "?q = p + 2 + 2 * n" and q4: "?q - 4 = p + 2 + 2 * m" and q2: "?q - 2 = p + 2 + 2 * Suc m"
    using m by simp_all
  note uni = addentry_key_unigram [OF cl(1) is_big5word_nonzero [OF cl(2)] cl(3) s3(3)]
  have branch: "big5_branch buf p s =
      (if query s3 \<noteq> 0 then Some (?q, s3)
       else Some (?q, addentry_key (s3\<lparr>key := memcpy ((key s3)(2 := 0x21, 3 := 0x21)) 0
              (take 2 (drop (p + 2 + 2 * Suc m) buf))\<rparr>)))"
  proof (rule big5_branch_symbol_first [OF _ c0(2) a s3(1)])
    show "rd buf (p + 2) = Some (buf ! (p + 2))" using c0(1) by (simp add: rd_def)
    show "rd buf (?q - 4) = Some (buf ! (p + 2 + 2 * m))"
      using cm(1) by (simp only: q4) (simp add: rd_def)
    show "is_big5word (buf ! (p + 2 + 2 * m))" by (rule cm(2))
    show "strncpy_src buf (?q - 2) 2 = Some (take 2 (drop (p + 2 + 2 * Suc m) buf))"
      using uni(1) by (simp only: q2)
  qed
  have n1: "n - 1 = Suc m" using m by simp
  have tree3: "wordtree s3 = fold addentry
      (map (\<lambda>i. take 4 (drop (p + 2 + 2 * i) buf)) [0..<n - 1]) (wordtree s)"
    using s3(2) by (simp only: n1) simp
  have qs: "query s3 = query s" using s3(4) by simp
  show ?thesis
  proof (cases "query s = 0")
    case True
    with branch qs uni(2) tree3 m show ?thesis
      by (simp add: run_tokens_def q del: upt_Suc)
  next
    case False
    with branch qs tree3 m show ?thesis
      by (simp add: run_tokens_def q del: upt_Suc)
  qed
qed




lemma trailing_lead_byte_general:
  "buf \<noteq> [] \<Longrightarrow> is_big5 (last buf) \<Longrightarrow> extract_step buf (length buf - 1) s = None"
  by (simp add: extract_step_def big5_branch_def rd_def last_conv_nth)

text \<open>
  Claim C5 says that a lead byte just before the terminator is skipped and nothing past the
  terminator is read. The branch of a double-byte character adds 2 to \<open>p\<close> without looking
  at the byte after the lead byte: for the buffer holding the single byte \<open>0xa4\<close>, the
  terminator is at offset 1 and \<^verbatim>\<open>is_big5word(p += 2)\<close> reads offset 2.
\<close>

theorem trailing_lead_byte_reads_past_terminator:
  "rd [0xa4] 2 = None \<and> extract_words [0xa4] s = None"
  by (simp add: extract_words_def extract_loop.simps [of "[0xa4]" 0] extract_step_def
      big5_branch_def rd_def is_big5_def)



section \<open>The tokenizer run from two states\<close>

text \<open>
  The tokenizer leaves alone what \<open>untouched\<close> lists. The lemmas of this section run each part of the tokenizer from two
  states \<open>s\<close> and \<open>t\<close> that agree on \<^verbatim>\<open>query\<close>: both runs add the same words, through
  \<^verbatim>\<open>addentry\<close> only, and end at the same place with the same buffer.
\<close>

lemma untouched_refl [simp]: "untouched s s"
  by (simp add: untouched_def)

lemma untouched_trans: "untouched s s' \<Longrightarrow> untouched s' s'' \<Longrightarrow> untouched s s''"
  by (simp add: untouched_def)

lemma untouched_key [simp]: "untouched s (s\<lparr>key := k\<rparr>)"
  by (simp add: untouched_def)

lemma untouched_addentry_key [simp]: "untouched s (addentry_key s)"
  by (simp add: untouched_def addentry_key_def)

lemma c_string_takeWhile:
  "c_string m i n = takeWhile (\<lambda>b. b \<noteq> 0) (map m [i..<i + n])"
proof (induction n arbitrary: i)
  case 0
  show ?case by simp
next
  case (Suc n)
  have "[i..<i + Suc n] = i # [Suc i..<Suc i + n]"
    by (simp add: upt_conv_Cons)
  then show ?case using Suc [of "Suc i"] by simp
qed

lemma takeWhile_stop: "\<not> P y \<Longrightarrow> takeWhile P (xs @ y # ys) = takeWhile P xs"
  by (induction xs) simp_all

lemma map_memcpy_upt:
  "length bs \<le> n \<Longrightarrow>
   map (memcpy k 0 bs) [0..<Suc n] = bs @ map k [length bs..<Suc n]"
proof -
  assume len: "length bs \<le> n"
  have "[0..<Suc n] = [0..<length bs] @ [length bs..<Suc n]"
    using len by (metis le_SucI le_add_diff_inverse upt_add_eq_append zero_le add_0)
  moreover have "map (memcpy k 0 bs) [0..<length bs] = bs"
    by (rule nth_equalityI) (simp_all add: memcpy_def)
  moreover have "map (memcpy k 0 bs) [length bs..<Suc n] = map k [length bs..<Suc n]"
    by (simp add: memcpy_def)
  ultimately show ?thesis by (metis map_append)
qed

lemma key_string_token:
  assumes "length bs \<le> MAXKEY" "k (length bs) = 0"
  shows "key_string (memcpy k 0 bs) = takeWhile (\<lambda>b. b \<noteq> 0) bs"
proof -
  have "[length bs..<Suc MAXKEY] = length bs # [Suc (length bs)..<Suc MAXKEY]"
    using assms(1) by (simp add: upt_conv_Cons)
  then have "map (memcpy k 0 bs) [0..<Suc MAXKEY]
             = bs @ 0 # map k [Suc (length bs)..<Suc MAXKEY]"
    using map_memcpy_upt [OF assms(1), of k] assms(2) by simp
  then show ?thesis
    by (simp add: key_string_def c_string_takeWhile takeWhile_stop)
qed

lemma strncpy_src_length: "strncpy_src w off n = Some src \<Longrightarrow> length src = n"
proof -
  assume a: "strncpy_src w off n = Some src"
  have "length (takeWhile (\<lambda>b. b \<noteq> 0) (take n (drop off w))) \<le> n"
    by (rule order_trans [OF length_takeWhile_le]) simp
  with a show ?thesis
    by (auto simp: strncpy_src_def Let_def split: if_splits)
qed

text \<open>The token that \<^verbatim>\<open>addentry(key)\<close> adds after each of the ways the tokenizer fills
  \<^verbatim>\<open>key\<close>: it depends on the bytes copied, not on what \<^verbatim>\<open>key\<close> held before.\<close>

lemma token_bigram:
  assumes "strncpy_src buf p 4 = Some src" "key s 4 = 0"
  shows "wordtree (addentry_key (s\<lparr>key := memcpy (key s) 0 src\<rparr>))
         = addentry (takeWhile (\<lambda>b. b \<noteq> 0) src) (wordtree s)"
    and "key (addentry_key (s\<lparr>key := memcpy (key s) 0 src\<rparr>)) 4 = 0"
proof -
  have len: "length src = 4" using assms(1) by (rule strncpy_src_length)
  have "key_string (memcpy (key s) 0 src) = takeWhile (\<lambda>b. b \<noteq> 0) src"
    by (rule key_string_token) (simp_all add: len MAXKEY_def assms(2))
  then show "wordtree (addentry_key (s\<lparr>key := memcpy (key s) 0 src\<rparr>))
         = addentry (takeWhile (\<lambda>b. b \<noteq> 0) src) (wordtree s)"
    by (simp add: addentry_key_def)
  show "key (addentry_key (s\<lparr>key := memcpy (key s) 0 src\<rparr>)) 4 = 0"
    using assms(2) len by (simp add: addentry_key_def memcpy_def)
qed

lemma token_unigram:
  assumes "strncpy_src buf p 2 = Some src" "k 4 = 0"
  shows "key_string (memcpy (k(2 := 0x21, 3 := 0x21)) 0 src)
         = takeWhile (\<lambda>b. b \<noteq> 0) (src @ [0x21, 0x21])"
proof -
  have len: "length src = 2" using assms(1) by (rule strncpy_src_length)
  have "memcpy (k(2 := 0x21, 3 := 0x21)) 0 src = memcpy k 0 (src @ [0x21, 0x21])"
    by (rule ext) (auto simp: memcpy_def len nth_append nth_Cons' numeral_eq_Suc less_Suc_eq)
  moreover have "key_string (memcpy k 0 (src @ [0x21, 0x21]))
                 = takeWhile (\<lambda>b. b \<noteq> 0) (src @ [0x21, 0x21])"
    by (rule key_string_token) (simp_all add: len MAXKEY_def assms(2))
  ultimately show ?thesis by simp
qed

lemma token_alnum:
  assumes "strncpy_src buf p n = Some src" "n \<le> MAXKEY"
  shows "key_string ((memcpy k 0 src)(n := 0)) = takeWhile (\<lambda>b. b \<noteq> 0) src"
proof -
  have len: "length src = n" using assms(1) by (rule strncpy_src_length)
  have "(memcpy k 0 src)(n := 0) = memcpy (k(n := 0)) 0 src"
    by (rule ext) (auto simp: memcpy_def len)
  moreover have "key_string (memcpy (k(n := 0)) 0 src) = takeWhile (\<lambda>b. b \<noteq> 0) src"
    by (rule key_string_token) (simp_all add: len assms(2))
  ultimately show ?thesis by simp
qed

lemma big5_loop_two_runs:
  assumes "big5_loop buf p s = Some (q, s')" "key s 4 = 0" "key t 4 = 0"
  shows "\<exists>toks t'. big5_loop buf p t = Some (q, t') \<and>
           wordtree s' = fold addentry toks (wordtree s) \<and>
           wordtree t' = fold addentry toks (wordtree t) \<and>
           untouched s s' \<and> untouched t t' \<and> key s' 4 = 0 \<and> key t' 4 = 0"
  using assms
proof (induction buf p s arbitrary: t rule: big5_loop.induct)
  case (1 buf p s)
  from "1.prems"(1) obtain c where c: "rd buf (p + 2) = Some c"
    by (subst (asm) big5_loop.simps) (auto split: option.splits)
  show ?case
  proof (cases "is_big5word c")
    case False
    with c "1.prems" have "q = p + 2" "s' = s"
      by (subst (asm) big5_loop.simps, simp)+
    moreover from False c have "big5_loop buf p t = Some (p + 2, t)"
      by (subst big5_loop.simps) simp
    ultimately show ?thesis using "1.prems"(2,3)
      by (intro exI [of _ "[]"] exI [of _ t]) simp
  next
    case True
    with c "1.prems"(1) obtain src where src: "strncpy_src buf p 4 = Some src"
      by (subst (asm) big5_loop.simps) (auto split: option.splits)
    let ?s1 = "addentry_key (s\<lparr>key := memcpy (key s) 0 src\<rparr>)"
    let ?t1 = "addentry_key (t\<lparr>key := memcpy (key t) 0 src\<rparr>)"
    let ?tok = "takeWhile (\<lambda>b. b \<noteq> 0) src"
    from True c src "1.prems"(1) have rec: "big5_loop buf (p + 2) ?s1 = Some (q, s')"
      by (subst (asm) big5_loop.simps) simp
    from True c src have rect: "big5_loop buf p t = big5_loop buf (p + 2) ?t1"
      by (subst big5_loop.simps) simp
    note ts = token_bigram [OF src "1.prems"(2)] and tt = token_bigram [OF src "1.prems"(3)]
    from "1.IH" [OF c True src rec ts(2) tt(2)]
    obtain toks t' where r: "big5_loop buf (p + 2) ?t1 = Some (q, t')"
      "wordtree s' = fold addentry toks (wordtree ?s1)"
      "wordtree t' = fold addentry toks (wordtree ?t1)"
      "untouched ?s1 s'" "untouched ?t1 t'" "key s' 4 = 0" "key t' 4 = 0"
      by blast
    have us: "untouched s ?s1" and ut: "untouched t ?t1"
      by (simp_all add: untouched_def addentry_key_def)
    show ?thesis
      using r rect ts(1) tt(1) untouched_trans [OF us r(4)] untouched_trans [OF ut r(5)]
      by (intro exI [of _ "?tok # toks"] exI [of _ t']) simp
  qed
qed


lemma first_bigram_two_runs:
  assumes "first_bigram buf p s = Some s'"
  shows "\<exists>toks t'. first_bigram buf p t = Some t' \<and>
           wordtree s' = fold addentry toks (wordtree s) \<and>
           wordtree t' = fold addentry toks (wordtree t) \<and>
           untouched s s' \<and> untouched t t' \<and> key s' 4 = 0 \<and> key t' 4 = 0"
proof -
  from assms obtain a where a: "rd buf (p - 2) = Some a"
    by (auto simp: first_bigram_def Let_def bind_eq_Some_conv)
  show ?thesis
  proof (cases "is_big5word a")
    case False
    with a assms have "s' = s\<lparr>key := (key s)(4 := 0)\<rparr>"
      by (simp add: first_bigram_def Let_def)
    moreover from False a have "first_bigram buf p t = Some (t\<lparr>key := (key t)(4 := 0)\<rparr>)"
      by (simp add: first_bigram_def Let_def)
    ultimately show ?thesis
      by (intro exI [of _ "[]"] exI [of _ "t\<lparr>key := (key t)(4 := 0)\<rparr>"]) simp
  next
    case True
    with a assms obtain src where src: "strncpy_src buf (p - 2) 4 = Some src"
      and s': "s' = addentry_key (s\<lparr>key := memcpy ((key s)(4 := 0)) 0 src\<rparr>)"
      by (auto simp: first_bigram_def Let_def)
    let ?t' = "addentry_key (t\<lparr>key := memcpy ((key t)(4 := 0)) 0 src\<rparr>)"
    from True a src have t': "first_bigram buf p t = Some ?t'"
      by (simp add: first_bigram_def Let_def)
    have ks: "key (s\<lparr>key := (key s)(4 := 0)\<rparr>) 4 = 0" and kt: "key (t\<lparr>key := (key t)(4 := 0)\<rparr>) 4 = 0"
      by simp_all
    note ts = token_bigram [OF src ks] and tt = token_bigram [OF src kt]
    show ?thesis
      using t' s' ts tt
      by (intro exI [of _ "[takeWhile (\<lambda>b. b \<noteq> 0) src]"] exI [of _ ?t'])
         (simp add: untouched_def addentry_key_def)
  qed
qed

lemma trailing_unigram_two_runs:
  assumes "trailing_unigram buf p s = Some s'" "query t = query s" "key s 4 = 0" "key t 4 = 0"
  shows "\<exists>toks t'. trailing_unigram buf p t = Some t' \<and>
           wordtree s' = fold addentry toks (wordtree s) \<and>
           wordtree t' = fold addentry toks (wordtree t) \<and>
           untouched s s' \<and> untouched t t'"
proof -
  from assms(1) obtain suppress
    where sup: "(if query s \<noteq> 0 then map_option is_big5word (rd buf (p - 4)) else Some False)
                = Some suppress"
    by (auto simp: trailing_unigram_def bind_eq_Some_conv)
  show ?thesis
  proof (cases suppress)
    case True
    with sup assms(1) have "s' = s" by (simp add: trailing_unigram_def)
    moreover from True sup assms(2) have "trailing_unigram buf p t = Some t"
      by (simp add: trailing_unigram_def)
    ultimately show ?thesis
      by (intro exI [of _ "[]"] exI [of _ t]) simp
  next
    case False
    with sup assms(1) obtain src where src: "strncpy_src buf (p - 2) 2 = Some src"
      and s': "s' = addentry_key (s\<lparr>key := memcpy ((key s)(2 := 0x21, 3 := 0x21)) 0 src\<rparr>)"
      by (auto simp: trailing_unigram_def Let_def bind_eq_Some_conv)
    let ?t' = "addentry_key (t\<lparr>key := memcpy ((key t)(2 := 0x21, 3 := 0x21)) 0 src\<rparr>)"
    from False sup src assms(2) have t': "trailing_unigram buf p t = Some ?t'"
      by (simp add: trailing_unigram_def Let_def)
    show ?thesis
      using t' s' token_unigram [where k = "key s", OF src assms(3)]
        token_unigram [where k = "key t", OF src assms(4)]
      by (intro exI [of _ "[takeWhile (\<lambda>b. b \<noteq> 0) (src @ [0x21, 0x21])]"] exI [of _ ?t'])
         (simp add: untouched_def addentry_key_def)
  qed
qed

lemma single_unigram_two_runs:
  assumes "single_unigram buf p s = Some s'"
  shows "\<exists>toks t'. single_unigram buf p t = Some t' \<and>
           wordtree s' = fold addentry toks (wordtree s) \<and>
           wordtree t' = fold addentry toks (wordtree t) \<and>
           untouched s s' \<and> untouched t t'"
proof -
  from assms obtain a where a: "rd buf (p - 2) = Some a"
    by (auto simp: single_unigram_def bind_eq_Some_conv)
  show ?thesis
  proof (cases "is_big5word a")
    case False
    with a assms have "s' = s" by (simp add: single_unigram_def)
    moreover from False a have "single_unigram buf p t = Some t"
      by (simp add: single_unigram_def)
    ultimately show ?thesis
      by (intro exI [of _ "[]"] exI [of _ t]) simp
  next
    case True
    with a assms obtain src where src: "strncpy_src buf (p - 2) 2 = Some src"
      and s': "s' = addentry_key (s\<lparr>key := memcpy ((key s)(4 := 0, 2 := 0x21, 3 := 0x21)) 0 src\<rparr>)"
      by (auto simp: single_unigram_def Let_def bind_eq_Some_conv)
    let ?t' = "addentry_key (t\<lparr>key := memcpy ((key t)(4 := 0, 2 := 0x21, 3 := 0x21)) 0 src\<rparr>)"
    from True a src have t': "single_unigram buf p t = Some ?t'"
      by (simp add: single_unigram_def Let_def)
    have "((key s)(4 := 0)) 4 = 0" "((key t)(4 := 0)) 4 = 0" by simp_all
    note ts = token_unigram [where k = "(key s)(4 := 0)", OF src this(1)]
      and tt = token_unigram [where k = "(key t)(4 := 0)", OF src this(2)]
    show ?thesis
      using t' s' ts tt
      by (intro exI [of _ "[takeWhile (\<lambda>b. b \<noteq> 0) (src @ [0x21, 0x21])]"] exI [of _ ?t'])
         (simp add: untouched_def addentry_key_def)
  qed
qed

lemma big5_branch_two_runs:
  assumes "big5_branch buf p s = Some (q, s')" "query t = query s"
  shows "\<exists>toks t'. big5_branch buf p t = Some (q, t') \<and>
           wordtree s' = fold addentry toks (wordtree s) \<and>
           wordtree t' = fold addentry toks (wordtree t) \<and>
           untouched s s' \<and> untouched t t'"
proof -
  from assms(1) obtain c where c: "rd buf (p + 2) = Some c"
    by (auto simp: big5_branch_def split: option.splits)
  show ?thesis
  proof (cases "is_big5word c")
    case False
    with c assms(1) have q: "q = p + 2" and su: "single_unigram buf (p + 2) s = Some s'"
      by (auto simp: big5_branch_def)
    from single_unigram_two_runs [OF su, of t] False c q show ?thesis
      by (auto simp: big5_branch_def)
  next
    case True
    with c assms(1) obtain s2 s3 where a: "first_bigram buf (p + 2) s = Some s2"
      and l: "big5_loop buf (p + 2) s2 = Some (q, s3)"
      and u: "trailing_unigram buf q s3 = Some s'"
      by (auto simp: big5_branch_def bind_eq_Some_conv)
    from first_bigram_two_runs [OF a, of t]
    obtain toks1 t2 where r1: "first_bigram buf (p + 2) t = Some t2"
      "wordtree s2 = fold addentry toks1 (wordtree s)"
      "wordtree t2 = fold addentry toks1 (wordtree t)"
      "untouched s s2" "untouched t t2" "key s2 4 = 0" "key t2 4 = 0"
      by blast
    from big5_loop_two_runs [OF l r1(6,7)]
    obtain toks2 t3 where r2: "big5_loop buf (p + 2) t2 = Some (q, t3)"
      "wordtree s3 = fold addentry toks2 (wordtree s2)"
      "wordtree t3 = fold addentry toks2 (wordtree t2)"
      "untouched s2 s3" "untouched t2 t3" "key s3 4 = 0" "key t3 4 = 0"
      by blast
    have "query t3 = query s3"
      using r1(4,5) r2(4,5) assms(2) by (simp add: untouched_def)
    from trailing_unigram_two_runs [OF u this r2(6,7)]
    obtain toks3 t' where r3: "trailing_unigram buf q t3 = Some t'"
      "wordtree s' = fold addentry toks3 (wordtree s3)"
      "wordtree t' = fold addentry toks3 (wordtree t3)"
      "untouched s3 s'" "untouched t3 t'"
      by blast
    have "big5_branch buf p t = Some (q, t')"
      using True c r1(1) r2(1) r3(1) by (simp add: big5_branch_def)
    moreover have "wordtree s' = fold addentry (toks1 @ toks2 @ toks3) (wordtree s)"
      "wordtree t' = fold addentry (toks1 @ toks2 @ toks3) (wordtree t)"
      using r1(2,3) r2(2,3) r3(2,3) by simp_all
    moreover have "untouched s s'" "untouched t t'"
      using r1(4,5) r2(4,5) r3(4,5) by (auto intro: untouched_trans)
    ultimately show ?thesis by blast
  qed
qed

lemma alnum_branch_two_runs:
  assumes "alnum_branch buf p s = Some (buf', q, s')"
  shows "\<exists>toks t'. alnum_branch buf p t = Some (buf', q, t') \<and>
           wordtree s' = fold addentry toks (wordtree s) \<and>
           wordtree t' = fold addentry toks (wordtree t) \<and>
           untouched s s' \<and> untouched t t'"
proof -
  from assms obtain xlen where l: "alnum_loop buf p 0 = Some (buf', q, xlen)"
    by (auto simp: alnum_branch_def bind_eq_Some_conv split: if_splits)
  show ?thesis
  proof (cases "xlen > 1")
    case False
    with l assms have "s' = s" by (simp add: alnum_branch_def)
    moreover from False l have "alnum_branch buf p t = Some (buf', q, t)"
      by (simp add: alnum_branch_def)
    ultimately show ?thesis
      by (intro exI [of _ "[]"] exI [of _ t]) simp
  next
    case True
    define n where "n = (if xlen > MAXKEY then MAXKEY else xlen)"
    have n: "n \<le> MAXKEY" by (simp add: n_def)
    from True l assms obtain src where src: "strncpy_src buf' p n = Some src"
      and s': "s' = addentry_key (s\<lparr>key := (memcpy (key s) 0 src)(n := 0)\<rparr>)"
      by (auto simp: alnum_branch_def Let_def bind_eq_Some_conv n_def)
    let ?t' = "addentry_key (t\<lparr>key := (memcpy (key t) 0 src)(n := 0)\<rparr>)"
    from True l src have t': "alnum_branch buf p t = Some (buf', q, ?t')"
      by (simp add: alnum_branch_def Let_def n_def)
    show ?thesis
      using t' s' token_alnum [OF src n, of "key s"] token_alnum [OF src n, of "key t"]
      by (intro exI [of _ "[takeWhile (\<lambda>b. b \<noteq> 0) src]"] exI [of _ ?t'])
         (simp add: untouched_def addentry_key_def)
  qed
qed

lemma extract_step_two_runs:
  assumes "extract_step buf p s = Some (buf', q, s')" "query t = query s"
  shows "\<exists>toks t'. extract_step buf p t = Some (buf', q, t') \<and>
           wordtree s' = fold addentry toks (wordtree s) \<and>
           wordtree t' = fold addentry toks (wordtree t) \<and>
           untouched s s' \<and> untouched t t'"
proof -
  from assms(1) obtain b where b: "rd buf p = Some b"
    by (auto simp: extract_step_def split: option.splits)
  consider "is_big5 b" | "\<not> is_big5 b" "is_alnum b" | "\<not> is_big5 b" "\<not> is_alnum b"
    by blast
  then show ?thesis
  proof cases
    case 1
    with b assms(1) have "big5_branch buf p s = Some (q, s')" and "buf' = buf"
      by (auto simp: extract_step_def)
    from big5_branch_two_runs [OF this(1) assms(2)] this(2) 1 b show ?thesis
      by (auto simp: extract_step_def)
  next
    case 2
    with b assms(1) have "alnum_branch buf p s = Some (buf', q, s')"
      by (simp add: extract_step_def)
    from alnum_branch_two_runs [OF this, of t] 2 b show ?thesis
      by (simp add: extract_step_def)
  next
    case 3
    with b assms(1) have "buf' = buf" "q = p + 1" "s' = s"
      by (simp_all add: extract_step_def)
    moreover from 3 b have "extract_step buf p t = Some (buf, p + 1, t)"
      by (simp add: extract_step_def)
    ultimately show ?thesis
      by (intro exI [of _ "[]"] exI [of _ t]) simp
  qed
qed

lemma extract_loop_two_runs:
  assumes "extract_loop buf p s = Some (buf', s')" "query t = query s"
  shows "\<exists>toks t'. extract_loop buf p t = Some (buf', t') \<and>
           wordtree s' = fold addentry toks (wordtree s) \<and>
           wordtree t' = fold addentry toks (wordtree t) \<and>
           untouched s s' \<and> untouched t t'"
  using assms
proof (induction buf p s arbitrary: t rule: extract_loop.induct)
  case (1 buf p s)
  from "1.prems"(1) obtain b where b: "rd buf p = Some b"
    by (subst (asm) extract_loop.simps) (auto split: option.splits)
  show ?case
  proof (cases "b = 0")
    case True
    with b "1.prems"(1) have "buf' = buf" "s' = s"
      by (subst (asm) extract_loop.simps, simp)+
    moreover from True b have "extract_loop buf p t = Some (buf, t)"
      by (subst extract_loop.simps) simp
    ultimately show ?thesis
      by (intro exI [of _ "[]"] exI [of _ t]) simp
  next
    case False
    with b "1.prems"(1) obtain buf1 q s1 where st: "extract_step buf p s = Some (buf1, q, s1)"
      and rec: "extract_loop buf1 q s1 = Some (buf', s')"
      by (subst (asm) extract_loop.simps) (auto split: option.splits)
    from extract_step_two_runs [OF st "1.prems"(2)]
    obtain toks1 t1 where r1: "extract_step buf p t = Some (buf1, q, t1)"
      "wordtree s1 = fold addentry toks1 (wordtree s)"
      "wordtree t1 = fold addentry toks1 (wordtree t)"
      "untouched s s1" "untouched t t1"
      by blast
    have "query t1 = query s1"
      using r1(4,5) "1.prems"(2) by (simp add: untouched_def)
    from "1.IH" [OF b False st refl refl rec this]
    obtain toks2 t' where r2: "extract_loop buf1 q t1 = Some (buf', t')"
      "wordtree s' = fold addentry toks2 (wordtree s1)"
      "wordtree t' = fold addentry toks2 (wordtree t1)"
      "untouched s1 s'" "untouched t1 t'"
      by blast
    have "extract_loop buf p t = Some (buf', t')"
      using False b r1(1) r2(1) by (subst extract_loop.simps) simp
    moreover have "wordtree s' = fold addentry (toks1 @ toks2) (wordtree s)"
      "wordtree t' = fold addentry (toks1 @ toks2) (wordtree t)"
      using r1(2,3) r2(2,3) by simp_all
    moreover have "untouched s s'" "untouched t t'"
      using r1(4,5) r2(4,5) by (auto intro: untouched_trans)
    ultimately show ?thesis by blast
  qed
qed

lemma extract_words_two_runs:
  assumes "extract_words buf s = Some (buf', s')" "query t = query s"
  shows "\<exists>toks t'. extract_words buf t = Some (buf', t') \<and>
           wordtree s' = fold addentry toks tree_init \<and>
           wordtree t' = wordtree s' \<and> untouched s s' \<and> untouched t t'"
proof -
  have "query (t\<lparr>wordtree := tree_init\<rparr>) = query (s\<lparr>wordtree := tree_init\<rparr>)"
    using assms(2) by simp
  from extract_loop_two_runs [OF assms(1) [unfolded extract_words_def] this]
  show ?thesis
    by (auto simp: extract_words_def untouched_def)
qed


section \<open>The order of the table\<close>

lemma strcmp_antisym: "strcmp b a = - strcmp a b"
  by (induction a b rule: strcmp.induct) auto

lemma uint_byte_less: "uint x - uint y < 0 \<longleftrightarrow> x < y" for x y :: byte
  by (simp add: word_less_def)

lemma strcmp_Cons_less:
  "strcmp (x # xs) (y # ys) < 0 \<longleftrightarrow> x < y \<or> (x = y \<and> x \<noteq> 0 \<and> strcmp xs ys < 0)"
  by (auto simp: word_less_def)

lemma strcmp_Nil_less: "strcmp [] (y # ys) < 0 \<longleftrightarrow> y \<noteq> 0"
  by (simp add: uint_0_iff order_less_le)

lemma strcmp_less_Nil: "\<not> strcmp a [] < 0"
  by (cases a) simp_all

lemma strcmp_trans:
  "strcmp a b < 0 \<Longrightarrow> strcmp b c < 0 \<Longrightarrow> strcmp a c < 0"
proof (induction a arbitrary: b c)
  case Nil
  from Nil.prems obtain y ys where b: "b = y # ys" by (cases b) auto
  with Nil.prems obtain z zs where c: "c = z # zs" by (cases c) (auto simp: strcmp_less_Nil)
  from Nil.prems b c have "y \<noteq> 0" "y < z \<or> y = z"
    by (simp_all only: strcmp_Nil_less strcmp_Cons_less) auto
  then have "z \<noteq> 0" by (auto simp: word_gt_0)
  with c show ?case by (simp only: strcmp_Nil_less not_False_eq_True)
next
  case (Cons x xs)
  from Cons.prems obtain y ys where b: "b = y # ys"
    by (cases b) (auto simp: strcmp_less_Nil)
  with Cons.prems obtain z zs where c: "c = z # zs"
    by (cases c) (auto simp: strcmp_less_Nil)
  from Cons.prems b c
  have xy: "x < y \<or> (x = y \<and> x \<noteq> 0 \<and> strcmp xs ys < 0)"
    and yz: "y < z \<or> (y = z \<and> y \<noteq> 0 \<and> strcmp ys zs < 0)"
    by (simp_all only: strcmp_Cons_less)
  from xy yz Cons.IH [of ys zs] have "x < z \<or> (x = z \<and> x \<noteq> 0 \<and> strcmp xs zs < 0)"
    by auto
  with c show ?case by (simp only: strcmp_Cons_less)
qed

lemma wordcmp_trans: "wordcmp a b < 0 \<Longrightarrow> wordcmp b c < 0 \<Longrightarrow> wordcmp a c < 0"
  unfolding wordcmp_def by (rule strcmp_trans)

lemma wordcmp_flip: "0 < wordcmp a b \<Longrightarrow> wordcmp b a < 0"
  unfolding wordcmp_def using strcmp_antisym [of "word a" "word b"] by simp

lemma set_tree_add: "set (tree_add cmp x t) \<subseteq> insert x (set t)"
  by (induction t) auto

lemma tree_add_sorted:
  "tree_sorted t \<Longrightarrow> \<forall>e\<in>set t. wordcmp x e \<noteq> 0 \<Longrightarrow> tree_sorted (tree_add wordcmp x t)"
proof (induction t)
  case Nil
  then show ?case by (simp add: tree_sorted_def)
next
  case (Cons y ys)
  from Cons.prems have ys: "tree_sorted ys" "\<forall>z\<in>set ys. wordcmp y z < 0" "wordcmp x y \<noteq> 0"
    by (simp_all add: tree_sorted_def)
  show ?case
  proof (cases "wordcmp x y < 0")
    case True
    with ys Cons.prems(1) show ?thesis
      by (auto simp: tree_sorted_def intro: wordcmp_trans)
  next
    case False
    with ys(3) have "wordcmp y x < 0" by (intro wordcmp_flip) simp
    moreover have "tree_sorted (tree_add wordcmp x ys)"
      using Cons.IH ys(1) Cons.prems(2) by simp
    ultimately show ?thesis
      using False ys(2,3) set_tree_add [of wordcmp x ys]
      by (auto simp: tree_sorted_def)
  qed
qed

lemma tree_sorted_words:
  "tree_sorted t \<longleftrightarrow> sorted_wrt (\<lambda>a b. strcmp a b < 0) (map word t)"
  by (simp add: tree_sorted_def wordcmp_def sorted_wrt_map)

lemma increment_sorted:
  "tree_sorted t \<Longrightarrow> tree_sorted (t[i := (t ! i)\<lparr>freq := f\<rparr>])"
proof -
  have "map word (t[i := (t ! i)\<lparr>freq := f\<rparr>]) = map word t"
    by (simp add: map_update) (metis list_update_id map_update)
  then show "tree_sorted t \<Longrightarrow> tree_sorted (t[i := (t ! i)\<lparr>freq := f\<rparr>])"
    by (simp add: tree_sorted_words)
qed

lemma addentry_sorted: "tree_sorted t \<Longrightarrow> tree_sorted (addentry x t)"
  by (auto simp: addentry_def increment_sorted tree_add_sorted tree_srch_None_iff
           split: option.splits)

lemma fold_addentry_sorted: "tree_sorted t \<Longrightarrow> tree_sorted (fold addentry toks t)"
  by (induction toks arbitrary: t) (simp_all add: addentry_sorted)

lemma extract_words_sorted:
  "extract_words buf s = Some (buf', s') \<Longrightarrow> tree_sorted (wordtree s')"
  using extract_words_two_runs [of buf s buf' s' s] fold_addentry_sorted [of tree_init]
  by (auto simp: tree_init_def tree_sorted_def)

lemma cjk_not_before_ascii:
  "is_cjk a \<Longrightarrow> \<not> is_cjk b \<Longrightarrow> \<not> wordcmp a b < 0"
proof -
  assume a: "is_cjk a" and b: "\<not> is_cjk b"
  from a obtain x xs where x: "word a = x # xs" "is_big5 x"
    by (cases "word a") (auto simp: is_cjk_def rd_def is_big5_def)
  show ?thesis
  proof (cases "word b")
    case Nil
    with x show ?thesis by (simp add: wordcmp_def strcmp_less_Nil del: strcmp.simps)
  next
    case (Cons y ys)
    with b have "\<not> is_big5 y" by (simp add: is_cjk_def rd_def)
    with x(2) have "y < x" by (simp add: is_big5_def)
    then have "\<not> (x < y \<or> (x = y \<and> x \<noteq> 0 \<and> strcmp xs ys < 0))" by auto
    with x Cons show ?thesis by (simp add: wordcmp_def strcmp_Cons_less del: strcmp.simps)
  qed
qed

lemma sorted_ascii_first:
  assumes "tree_sorted t" "i < length t" "j < length t" "\<not> is_cjk (t ! i)" "is_cjk (t ! j)"
  shows "i < j"
proof (rule ccontr)
  assume "\<not> i < j"
  moreover from assms(4,5) have "i \<noteq> j" by auto
  ultimately have "j < i" by simp
  with assms(1,2) have "wordcmp (t ! j) (t ! i) < 0"
    by (simp add: tree_sorted_def sorted_wrt_iff_nth_less)
  with cjk_not_before_ascii [OF assms(5,4)] show False by simp
qed

lemma cb_delim_ascii:
  "\<not> is_cjk en \<Longrightarrow> \<exists>s'. cb_delim en s = Some s' \<and> last_en s' = last_en s"
proof -
  assume e: "\<not> is_cjk en"
  obtain b where b: "rd (word en) 0 = Some b"
    by (cases "word en") (simp_all add: rd_def)
  with e have "\<not> is_big5 b" by (simp add: is_cjk_def)
  with b show ?thesis
    by (simp add: cb_delim_def flush_group_def cb_def Let_def)
qed

lemma tree_trav_ascii:
  "\<forall>e\<in>set es. \<not> is_cjk e \<Longrightarrow> \<exists>s'. tree_trav cb_delim es s = Some s' \<and> last_en s' = last_en s"
proof (induction es arbitrary: s)
  case Nil
  then show ?case by simp
next
  case (Cons e es)
  from cb_delim_ascii [of e s] Cons.prems obtain s1
    where s1: "cb_delim e s = Some s1" "last_en s1 = last_en s" by auto
  from Cons.IH [of s1] Cons.prems s1 show ?case by auto
qed

text \<open>
  Claim C10. The table that \<^verbatim>\<open>extract_words\<close> builds is traversed in the order of
  \<^verbatim>\<open>wordcmp\<close>, that is of \<^verbatim>\<open>strcmp\<close> on bytes read as \<^verbatim>\<open>unsigned char\<close>: every entry that
  fails the emitters' test \<^verbatim>\<open>is_big5(en->word)\<close> stands before every entry that passes it.
  So when \<^verbatim>\<open>cb_delim\<close> visits an entry \<open>e\<close> in its ASCII branch, the traversal of the entries
  before \<open>e\<close>, begun with \<^verbatim>\<open>last = 0\<close>, has returned and has left \<^verbatim>\<open>last\<close> at 0: no group
  is open whose bytes in \<^verbatim>\<open>val\<close> the branch could overwrite.
\<close>

theorem ascii_entries_precede_cjk_entries:
  assumes "extract_words p s = Some (p', s1)"
  shows "(\<forall>i j. i < length (wordtree s1) \<and> j < length (wordtree s1) \<and>
            \<not> is_cjk (wordtree s1 ! i) \<and> is_cjk (wordtree s1 ! j) \<longrightarrow> i < j) \<and>
         (\<forall>pre e post s0. wordtree s1 = pre @ e # post \<and> \<not> is_cjk e \<and> last_en s0 = None \<longrightarrow>
            (\<exists>s2. tree_trav cb_delim pre s0 = Some s2 \<and> last_en s2 = None))"
proof -
  have sorted: "tree_sorted (wordtree s1)"
    using assms by (rule extract_words_sorted)
  have "\<exists>s2. tree_trav cb_delim pre s0 = Some s2 \<and> last_en s2 = None"
    if t: "wordtree s1 = pre @ e # post" and e: "\<not> is_cjk e" and l: "last_en s0 = None"
    for pre e post s0
  proof -
    have "\<not> is_cjk x" if "x \<in> set pre" for x
    proof
      assume x: "is_cjk x"
      from that obtain i where i: "i < length pre" "pre ! i = x"
        by (auto simp: in_set_conv_nth)
      have "i < length pre"
        using sorted_ascii_first [OF sorted, of "length pre" i] t e x i
        by (simp add: nth_append)
      then show False
        using sorted_ascii_first [OF sorted, of "length pre" i] t e x i
        by (simp add: nth_append)
    qed
    with tree_trav_ascii [of pre s0] l show ?thesis by auto
  qed
  with sorted_ascii_first [OF sorted] show ?thesis by blast
qed


text \<open>The theorem at a buffer with two ideographs before the words \<open>hi\<close> and \<open>Ab\<close>.\<close>

theorem ascii_entries_precede_cjk_entries_witness:
  "wordtree (snd (the (extract_words [0xa4, 0x41, 0xa4, 0x42, 0x20, 0x68, 0x69, 0x20, 0x41, 0x62]
       initial_globals)))
     = [\<lparr>word = [0x61, 0x62], freq = 1\<rparr>, \<lparr>word = [0x68, 0x69], freq = 1\<rparr>,
        \<lparr>word = [0xa4, 0x41, 0xa4, 0x42], freq = 1\<rparr>,
        \<lparr>word = [0xa4, 0x42, 0x21, 0x21], freq = 1\<rparr>] \<and>
   (1::nat) < 2 \<and>
   (\<exists>s2. tree_trav cb_delim [\<lparr>word = [0x61, 0x62], freq = 1\<rparr>] initial_globals = Some s2 \<and>
         last_en s2 = None)"
proof -
  let ?B = "[0xa4, 0x41, 0xa4, 0x42, 0x20, 0x68, 0x69, 0x20, 0x41, 0x62] :: byte list"
  let ?r = "the (extract_words ?B initial_globals)"
  let ?ab = "\<lparr>word = [0x61, 0x62], freq = 1\<rparr> :: entry"
  let ?hi = "\<lparr>word = [0x68, 0x69], freq = 1\<rparr> :: entry"
  let ?rest = "[\<lparr>word = [0xa4, 0x41, 0xa4, 0x42], freq = 1\<rparr>,
                \<lparr>word = [0xa4, 0x42, 0x21, 0x21], freq = 1\<rparr>] :: entry list"
  have "map_option (\<lambda>(b, s). wordtree s) (extract_words ?B initial_globals)
        = Some (?ab # ?hi # ?rest)"
    by code_simp
  then have ew: "extract_words ?B initial_globals = Some (fst ?r, snd ?r)"
    and wt: "wordtree (snd ?r) = [?ab] @ ?hi # ?rest"
    by (auto simp: case_prod_beta)
  have hi: "\<not> is_cjk ?hi" by (simp add: is_cjk_def rd_def is_big5_def)
  have cjk: "is_cjk (wordtree (snd ?r) ! 2)"
    by (simp add: wt is_cjk_def rd_def is_big5_def)
  have l: "last_en initial_globals = None" by (simp add: initial_globals_def)
  from ascii_entries_precede_cjk_entries [OF ew] wt hi cjk l
  have "(1::nat) < 2" and
    "\<exists>s2. tree_trav cb_delim [?ab] initial_globals = Some s2 \<and> last_en s2 = None"
    by (simp, blast)
  with wt show ?thesis by simp
qed


section \<open>The delimited emitter\<close>

lemma cjk4_word:
  assumes "cjk4 e"
  obtains a b c d where "word e = [a, b, c, d]" "is_big5 a" "a \<noteq> 0" "b \<noteq> 0"
proof -
  from assms have l: "length (word e) = 4" by (simp add: cjk4_def)
  then obtain a b c d where w: "word e = [a, b, c, d]"
    by (auto simp: length_Suc_conv numeral_eq_Suc)
  with assms that show thesis by (auto simp: cjk4_def)
qed

lemma key_string_terminated:
  assumes "length src = n" "n \<le> MAXKEY"
  shows "key_string ((memcpy k 0 src)(n := 0)) = takeWhile (\<lambda>b. b \<noteq> 0) src"
proof -
  have "(memcpy k 0 src)(n := 0) = memcpy (k(n := 0)) 0 src"
    by (rule ext) (auto simp: memcpy_def assms(1))
  moreover have "key_string (memcpy (k(n := 0)) 0 src) = takeWhile (\<lambda>b. b \<noteq> 0) src"
    by (rule key_string_token) (simp_all add: assms)
  ultimately show ?thesis by simp
qed

lemma map_memcpy_val:
  "map (memcpy m off bs) [0..<off + length bs] = map m [0..<off] @ bs"
proof -
  have "[0..<off + length bs] = [0..<off] @ [off..<off + length bs]"
    by (rule upt_add_eq_append) simp
  moreover have "map (memcpy m off bs) [0..<off] = map m [0..<off]"
    by (simp add: memcpy_def)
  moreover have "map (memcpy m off bs) [off..<off + length bs] = bs"
    by (rule nth_equalityI) (simp_all add: memcpy_def)
  ultimately show ?thesis by simp
qed

lemma open_group_cjk4:
  assumes "cjk4 e" "map (delim s) [0..<4] = d"
  shows "\<exists>s'. open_group e s = Some s' \<and> calls s' = calls s \<and>
           key_string (key s') = prefix2 e \<and> valp s' = 6 \<and>
           map (val s') [0..<7] = d @ triple e \<and> delim s' = delim s \<and>
           last_en s' = last_en s \<and> query s' = query s \<and> wordtree s' = wordtree s"
proof -
  from assms(1) obtain a b c x where w: "word e = [a, b, c, x]" "is_big5 a" "a \<noteq> 0" "b \<noteq> 0"
    by (rule cjk4_word)
  have pfx: "bytes_at (word e) 0 2 = Some [a, b]" and sfx: "bytes_at (word e) 2 2 = Some [c, x]"
    by (simp_all add: bytes_at_def w)
  have ks: "key_string ((memcpy (key s) 0 [a, b])(2 := 0)) = [a, b]"
    using key_string_terminated [of "[a, b]" 2 "key s"] w(3,4) by (simp add: MAXKEY_def)
  have len: "length d = 4" using assms(2) by auto
  let ?v = "memcpy (memcpy (val s) 0 d) 4 [c, x]"
  have "map ?v [0..<4 + length [c, x]] = map (memcpy (val s) 0 d) [0..<4] @ [c, x]"
    by (rule map_memcpy_val)
  moreover have "map (memcpy (val s) 0 d) [0..<0 + length d] = map (val s) [0..<0] @ d"
    by (rule map_memcpy_val)
  ultimately have v6: "map ?v [0..<6] = d @ [c, x]"
    by (simp add: len)
  have "[0..<7] = [0..<6] @ [6]" by (simp add: upt_rec)
  then have v7: "map (?v(6 := f)) [0..<7] = d @ [c, x, f]" for f
    using v6 by simp
  have og: "open_group e s = Some (s\<lparr>key := (memcpy (key s) 0 [a, b])(2 := 0),
      val := ?v(6 := ucast (emitted (freq e))), valp := 6\<rparr>)"
    unfolding open_group_def by (simp add: pfx sfx Let_def assms(2) del: upt_rec_numeral)
  show ?thesis
    unfolding og using ks v7 [of "ucast (emitted (freq e))"]
    by (simp add: prefix2_def triple_def w del: upt_rec_numeral)
qed


lemma group_openI:
  assumes "g \<noteq> []" "\<forall>e\<in>set g. cjk4 e \<and> prefix2 e = prefix2 (hd g)"
    "last_en s = Some (last g)" "key_string (key s) = prefix2 (hd g)"
    "valp s + 1 = 4 + 3 * length g"
    "map (val s) [0..<valp s + 1] = d @ concat (map triple g)"
    "map (delim s) [0..<4] = d"
  shows "group_open d g s"
  unfolding group_open_def by (intro conjI) (fact assms)+

lemma group_openD:
  assumes "group_open d g s"
  shows "g \<noteq> []" "\<forall>e\<in>set g. cjk4 e \<and> prefix2 e = prefix2 (hd g)"
    "last_en s = Some (last g)" "key_string (key s) = prefix2 (hd g)"
    "valp s + 1 = 4 + 3 * length g"
    "map (val s) [0..<valp s + 1] = d @ concat (map triple g)"
    "map (delim s) [0..<4] = d"
proof -
  from assms have a: "g \<noteq> [] \<and> (\<forall>e\<in>set g. cjk4 e \<and> prefix2 e = prefix2 (hd g)) \<and>
      last_en s = Some (last g) \<and> key_string (key s) = prefix2 (hd g) \<and>
      valp s + 1 = 4 + 3 * length g \<and>
      map (val s) [0..<valp s + 1] = d @ concat (map triple g) \<and>
      map (delim s) [0..<4] = d"
    unfolding group_open_def .
  note b = a [THEN conjunct2] note c = b [THEN conjunct2] note e = c [THEN conjunct2]
  note f = e [THEN conjunct2] note h = f [THEN conjunct2]
  show "g \<noteq> []" by (rule a [THEN conjunct1])
  show "\<forall>e\<in>set g. cjk4 e \<and> prefix2 e = prefix2 (hd g)" by (rule b [THEN conjunct1])
  show "last_en s = Some (last g)" by (rule c [THEN conjunct1])
  show "key_string (key s) = prefix2 (hd g)" by (rule e [THEN conjunct1])
  show "valp s + 1 = 4 + 3 * length g" by (rule f [THEN conjunct1])
  show "map (val s) [0..<valp s + 1] = d @ concat (map triple g)" by (rule h [THEN conjunct1])
  show "map (delim s) [0..<4] = d" by (rule h [THEN conjunct2])
qed

lemma group_open_single:
  assumes "cjk4 e" "last_en s = Some e" "key_string (key s) = prefix2 e" "valp s = 6"
    "map (val s) [0..<7] = d @ triple e" "map (delim s) [0..<4] = d"
  shows "group_open d [e] s"
proof (rule group_openI)
  show "[e] \<noteq> []" by simp
  show "\<forall>x\<in>set [e]. cjk4 x \<and> prefix2 x = prefix2 (hd [e])" using assms(1) by simp
  show "last_en s = Some (last [e])" using assms(2) by simp
  show "key_string (key s) = prefix2 (hd [e])" using assms(3) by simp
  show "valp s + 1 = 4 + 3 * length [e]" using assms(4) by simp
  have "valp s + 1 = 7" using assms(4) by simp
  then show "map (val s) [0..<valp s + 1] = d @ concat (map triple [e])"
    using assms(5) by (simp only: concat.simps list.map append_Nil2)
  show "map (delim s) [0..<4] = d" by (fact assms(6))
qed

lemma cb_delim_first:
  assumes "last_en s = None" "cjk4 e" "map (delim s) [0..<4] = d"
  shows "\<exists>s'. cb_delim e s = Some s' \<and> group_open d [e] s' \<and> calls s' = calls s \<and>
           query s' = query s \<and> wordtree s' = wordtree s"
proof -
  from assms(2) obtain a b c x where w: "word e = [a, b, c, x]" "is_big5 a" "a \<noteq> 0" "b \<noteq> 0"
    by (rule cjk4_word)
  from open_group_cjk4 [OF assms(2,3)] obtain s1 where s1: "open_group e s = Some s1"
    "calls s1 = calls s" "key_string (key s1) = prefix2 e" "valp s1 = 6"
    "map (val s1) [0..<7] = d @ triple e" "delim s1 = delim s" "query s1 = query s"
    "wordtree s1 = wordtree s"
    by blast
  have "cb_delim e s = Some (s1\<lparr>last_en := Some e\<rparr>)"
    using assms(1) s1(1) w(1,2) by (simp add: cb_delim_def rd_def)
  moreover have "group_open d [e] (s1\<lparr>last_en := Some e\<rparr>)"
  proof (rule group_open_single [OF assms(2)])
    show "map (val (s1\<lparr>last_en := Some e\<rparr>)) [0..<7] = d @ triple e"
      using s1(5) by (simp del: upt_rec_numeral)
    show "map (delim (s1\<lparr>last_en := Some e\<rparr>)) [0..<4] = d"
      using assms(3) s1(6) by (simp del: upt_rec_numeral)
    show "last_en (s1\<lparr>last_en := Some e\<rparr>) = Some e" by simp
    show "key_string (key (s1\<lparr>last_en := Some e\<rparr>)) = prefix2 e" using s1(3) by simp
    show "valp (s1\<lparr>last_en := Some e\<rparr>) = 6" using s1(4) by simp
  qed
  ultimately show ?thesis using s1(2,7,8) by simp
qed

lemma same_prefix_test:
  assumes "cjk4 e" "cjk4 l"
  shows "(word e ! 0 = word l ! 0 \<and> word e ! 1 = word l ! 1) \<longleftrightarrow> prefix2 e = prefix2 l"
proof -
  from assms(1) obtain a b c x where e: "word e = [a, b, c, x]" by (rule cjk4_word)
  from assms(2) obtain a' b' c' x' where l: "word l = [a', b', c', x']" by (rule cjk4_word)
  show ?thesis by (simp add: prefix2_def e l)
qed

lemma group_open_last:
  assumes "group_open d g s"
  shows "last_en s = Some (last g)" "cjk4 (last g)" "prefix2 (last g) = prefix2 (hd g)"
  using group_openD(1,2,3) [OF assms] last_in_set [of g] by blast+

lemma cb_delim_same:
  assumes "group_open d g s" "cjk4 e" "prefix2 e = prefix2 (hd g)"
  shows "\<exists>s'. cb_delim e s = Some s' \<and> group_open d (g @ [e]) s' \<and> calls s' = calls s \<and>
           query s' = query s \<and> wordtree s' = wordtree s"
proof -
  from assms(2) obtain a b c x where w: "word e = [a, b, c, x]" "is_big5 a" "a \<noteq> 0" "b \<noteq> 0"
    by (rule cjk4_word)
  note l = group_open_last [OF assms(1)]
  from l(2) obtain a' b' c' x' where wl: "word (last g) = [a', b', c', x']"
    by (rule cjk4_word)
  have same: "a = a'" "b = b'"
    using same_prefix_test [OF assms(2) l(2)] assms(3) l(3) by (simp_all add: w wl)
  let ?f = "ucast (emitted (freq e)) :: byte"
  let ?v = "(memcpy (val s) (valp s + 1) [c, x])(valp s + 3 := ?f)"
  let ?s' = "s\<lparr>val := ?v, valp := valp s + 3, last_en := Some e\<rparr>"
  have cb: "cb_delim e s = Some ?s'"
    using l(1) same w(2) by (simp add: cb_delim_def rd_def w(1) wl bytes_at_def)
  have "map (memcpy (val s) (valp s + 1) [c, x]) [0..<valp s + 1 + length [c, x]]
        = map (val s) [0..<valp s + 1] @ [c, x]"
    by (rule map_memcpy_val)
  moreover have "valp s + 1 + length [c, x] = valp s + 3" by simp
  ultimately have "map (memcpy (val s) (valp s + 1) [c, x]) [0..<valp s + 3]
        = map (val s) [0..<valp s + 1] @ [c, x]"
    by (simp only:)
  then have "map ?v [0..<valp s + 3] = map (val s) [0..<valp s + 1] @ [c, x]"
    by simp
  moreover have "[0..<Suc (valp s + 3)] = [0..<valp s + 3] @ [valp s + 3]"
    by (rule upt_Suc_append) simp
  ultimately have "map ?v [0..<Suc (valp s + 3)] = map (val s) [0..<valp s + 1] @ [c, x, ?f]"
    by (simp only: map_append list.map fun_upd_same append_assoc append.simps)
  then have v: "map ?v [0..<valp s + 3 + 1] = map (val s) [0..<valp s + 1] @ [c, x, ?f]"
    by (simp only: Suc_eq_plus1)
  have tr: "triple e = [c, x, ?f]" by (simp add: triple_def w)
  note go = group_openD(1,2,5,6,7) [OF assms(1)]
  have "group_open d (g @ [e]) ?s'"
  proof (rule group_openI)
    show "g @ [e] \<noteq> []" by simp
    have hd: "hd (g @ [e]) = hd g" using go(1) by simp
    show "\<forall>y\<in>set (g @ [e]). cjk4 y \<and> prefix2 y = prefix2 (hd (g @ [e]))"
    proof
      fix y
      assume "y \<in> set (g @ [e])"
      then have "y \<in> set g \<or> y = e" by auto
      then show "cjk4 y \<and> prefix2 y = prefix2 (hd (g @ [e]))"
      proof
        assume "y \<in> set g"
        with go(2) show ?thesis unfolding hd by blast
      next
        assume "y = e"
        with assms(2,3) show ?thesis unfolding hd by simp
      qed
    qed
    show "last_en ?s' = Some (last (g @ [e]))" by simp
    show "key_string (key ?s') = prefix2 (hd (g @ [e]))"
      using group_openD(4) [OF assms(1)] unfolding hd by simp
    show "valp ?s' + 1 = 4 + 3 * length (g @ [e])" using go(3) by simp
    have "map (val ?s') [0..<valp ?s' + 1] = map ?v [0..<valp s + 3 + 1]" by simp
    also have "\<dots> = (d @ concat (map triple g)) @ [c, x, ?f]"
      by (simp only: v go(4))
    finally show "map (val ?s') [0..<valp ?s' + 1] = d @ concat (map triple (g @ [e]))"
      by (simp add: tr)
    show "map (delim ?s') [0..<4] = d" using go(5) by (simp del: upt_rec_numeral)
  qed
  with cb show ?thesis by simp
qed

lemma cb_delim_other:
  assumes "group_open d g s" "cjk4 e" "prefix2 e \<noteq> prefix2 (hd g)"
  shows "\<exists>s'. cb_delim e s = Some s' \<and> group_open d [e] s' \<and>
           calls s' = calls s @ [group_call d g] \<and> query s' = query s \<and> wordtree s' = wordtree s"
proof -
  from assms(2) obtain a b c x where w: "word e = [a, b, c, x]" "is_big5 a" "a \<noteq> 0" "b \<noteq> 0"
    by (rule cjk4_word)
  note l = group_open_last [OF assms(1)]
  from l(2) obtain a' b' c' x' where wl: "word (last g) = [a', b', c', x']"
    by (rule cjk4_word)
  have diff: "\<not> (a = a' \<and> b = b')"
    using same_prefix_test [OF assms(2) l(2)] assms(3) l(3) by (simp add: w wl)
  let ?s1 = "flush_group (key_string (key s)) s"
  have fl: "calls ?s1 = calls s @ [group_call d g]" "delim ?s1 = delim s" "query ?s1 = query s"
    "wordtree ?s1 = wordtree s"
    using group_openD(4,5,6) [OF assms(1)]
    by (simp_all add: flush_group_def cb_def group_call_def)
  have d: "map (delim ?s1) [0..<4] = d"
    using group_openD(7) [OF assms(1)] fl(2) by (simp del: upt_rec_numeral)
  from open_group_cjk4 [OF assms(2) d] obtain s2 where s2: "open_group e ?s1 = Some s2"
    "calls s2 = calls ?s1" "key_string (key s2) = prefix2 e" "valp s2 = 6"
    "map (val s2) [0..<7] = d @ triple e" "delim s2 = delim ?s1" "query s2 = query ?s1"
    "wordtree s2 = wordtree ?s1"
    by blast
  have "cb_delim e s = Some (s2\<lparr>last_en := Some e\<rparr>)"
    using l(1) diff s2(1) by (auto simp: cb_delim_def rd_def w wl)
  moreover have "group_open d [e] (s2\<lparr>last_en := Some e\<rparr>)"
  proof (rule group_open_single [OF assms(2)])
    show "map (val (s2\<lparr>last_en := Some e\<rparr>)) [0..<7] = d @ triple e"
      using s2(5) by (simp del: upt_rec_numeral)
    show "map (delim (s2\<lparr>last_en := Some e\<rparr>)) [0..<4] = d"
      using d s2(6) by (simp del: upt_rec_numeral)
    show "last_en (s2\<lparr>last_en := Some e\<rparr>) = Some e" by simp
    show "key_string (key (s2\<lparr>last_en := Some e\<rparr>)) = prefix2 e" using s2(3) by simp
    show "valp (s2\<lparr>last_en := Some e\<rparr>) = 6" using s2(4) by simp
  qed
  ultimately show ?thesis using s2(2,7,8) fl by simp
qed


lemma cb_delim_ascii_call:
  assumes "\<not> is_cjk e" "map (delim s) [0..<4] = d"
  shows "\<exists>s'. cb_delim e s = Some s' \<and> calls s' = calls s @ [ascii_call d e] \<and>
           last_en s' = last_en s \<and> delim s' = delim s \<and> query s' = query s \<and>
           wordtree s' = wordtree s"
proof -
  obtain b where b: "rd (word e) 0 = Some b"
    by (cases "word e") (simp_all add: rd_def)
  with assms(1) have nb: "\<not> is_big5 b" by (simp add: is_cjk_def)
  let ?f = "ucast (emitted (freq e)) :: byte"
  let ?v = "(memcpy (val s) 0 d)(4 := 0x20, 5 := 0x20, 6 := ?f)"
  let ?s1 = "s\<lparr>val := ?v, valp := 6\<rparr>"
  have cb: "cb_delim e s = Some (flush_group (word e) ?s1)"
    using b nb assms(2) by (simp add: cb_delim_def Let_def del: upt_rec_numeral)
  have len: "length d = 4" using assms(2) by auto
  have "map (memcpy (val s) 0 d) [0..<0 + length d] = map (val s) [0..<0] @ d"
    by (rule map_memcpy_val)
  then have v4: "map (memcpy (val s) 0 d) [0..<4] = d" by (simp add: len del: upt_rec_numeral)
  have "[0..<7] = [0..<4] @ [4, 5, 6]" by (simp add: upt_rec)
  then have "map ?v [0..<7] = map ?v [0..<4] @ [0x20, 0x20, ?f]" by simp
  moreover have "map ?v [0..<4] = map (memcpy (val s) 0 d) [0..<4]" by simp
  ultimately have v7: "map ?v [0..<7] = d @ [0x20, 0x20, ?f]" by (simp only: v4)
  have "calls (flush_group (word e) ?s1) = calls s @ [ascii_call d e]"
    using v7 by (simp add: flush_group_def cb_def ascii_call_def del: upt_rec_numeral)
  with cb show ?thesis by (simp add: flush_group_def cb_def)
qed

lemma tree_trav_ascii_calls:
  assumes "\<forall>e\<in>set es. \<not> is_cjk e" "map (delim s) [0..<4] = d"
  shows "\<exists>s'. tree_trav cb_delim es s = Some s' \<and>
           calls s' = calls s @ map (ascii_call d) es \<and>
           last_en s' = last_en s \<and> delim s' = delim s \<and> query s' = query s \<and>
           wordtree s' = wordtree s"
  using assms
proof (induction es arbitrary: s)
  case Nil
  then show ?case by simp
next
  case (Cons e es)
  from Cons.prems have e: "\<not> is_cjk e" by simp
  from cb_delim_ascii_call [OF e Cons.prems(2)] obtain s1
    where s1: "cb_delim e s = Some s1" "calls s1 = calls s @ [ascii_call d e]"
      "last_en s1 = last_en s" "delim s1 = delim s" "query s1 = query s"
      "wordtree s1 = wordtree s"
    by blast
  have "map (delim s1) [0..<4] = d" using Cons.prems(2) s1(4) by (simp del: upt_rec_numeral)
  from Cons.IH [OF _ this] Cons.prems(1) obtain s'
    where "tree_trav cb_delim es s1 = Some s'" "calls s' = calls s1 @ map (ascii_call d) es"
      "last_en s' = last_en s1" "delim s' = delim s1" "query s' = query s1"
      "wordtree s' = wordtree s1"
    by auto
  with s1 show ?case by simp
qed

lemma groups_single:
  assumes "g \<noteq> []" "\<forall>y\<in>set g. prefix2 y = prefix2 (hd g)"
  shows "groups g = [g]"
proof -
  from assms(1) obtain x xs where g: "g = x # xs" by (cases g) auto
  with assms(2) have "\<forall>y\<in>set xs. prefix2 y = prefix2 x" by simp
  then have "takeWhile (\<lambda>y. prefix2 y = prefix2 x) xs = xs"
    "dropWhile (\<lambda>y. prefix2 y = prefix2 x) xs = []"
    by (simp_all add: takeWhile_eq_all_conv)
  then show ?thesis unfolding g by (simp only: groups.simps)
qed

lemma groups_split:
  assumes "g \<noteq> []" "\<forall>y\<in>set g. prefix2 y = prefix2 (hd g)" "prefix2 e \<noteq> prefix2 (hd g)"
  shows "groups (g @ e # es) = g # groups (e # es)"
proof -
  from assms(1) obtain x xs where g: "g = x # xs" by (cases g) auto
  with assms(2) have all: "\<forall>y\<in>set xs. prefix2 y = prefix2 x" by simp
  from assms(3) g have e: "prefix2 e \<noteq> prefix2 x" by simp
  have "takeWhile (\<lambda>y. prefix2 y = prefix2 x) (xs @ e # es) = xs"
    using all e by (simp add: takeWhile_append2)
  moreover have "dropWhile (\<lambda>y. prefix2 y = prefix2 x) (xs @ e # es) = e # es"
    using all e by (simp add: dropWhile_append2)
  ultimately show ?thesis
    unfolding g by (simp only: append_Cons groups.simps)
qed

lemma tree_trav_group:
  assumes "group_open d g s" "\<forall>e\<in>set es. cjk4 e"
  shows "\<exists>s' gs g'. tree_trav cb_delim es s = Some s' \<and> group_open d g' s' \<and>
           groups (g @ es) = gs @ [g'] \<and> calls s' = calls s @ map (group_call d) gs \<and>
           query s' = query s \<and> wordtree s' = wordtree s"
  using assms
proof (induction es arbitrary: g s)
  case Nil
  have same: "\<forall>y\<in>set g. prefix2 y = prefix2 (hd g)"
    using group_openD(2) [OF Nil.prems(1)] by blast
  from groups_single [OF group_openD(1) [OF Nil.prems(1)] same] Nil.prems(1)
  show ?case by (intro exI [of _ s] exI [of _ "[]"] exI [of _ g]) simp
next
  case (Cons e es)
  from Cons.prems(2) have e: "cjk4 e" and es: "\<forall>x\<in>set es. cjk4 x" by simp_all
  have ne: "g \<noteq> []" and same: "\<forall>y\<in>set g. prefix2 y = prefix2 (hd g)"
    using group_openD(1,2) [OF Cons.prems(1)] by blast+
  show ?case
  proof (cases "prefix2 e = prefix2 (hd g)")
    case True
    from cb_delim_same [OF Cons.prems(1) e True] obtain s1
      where s1: "cb_delim e s = Some s1" "group_open d (g @ [e]) s1" "calls s1 = calls s"
        "query s1 = query s" "wordtree s1 = wordtree s"
      by blast
    from Cons.IH [OF s1(2) es] obtain s' gs g'
      where r: "tree_trav cb_delim es s1 = Some s'" "group_open d g' s'"
        "groups ((g @ [e]) @ es) = gs @ [g']" "calls s' = calls s1 @ map (group_call d) gs"
        "query s' = query s1" "wordtree s' = wordtree s1"
      by blast
    show ?thesis
      using s1 r by (intro exI [of _ s'] exI [of _ gs] exI [of _ g']) simp
  next
    case False
    from cb_delim_other [OF Cons.prems(1) e False] obtain s1
      where s1: "cb_delim e s = Some s1" "group_open d [e] s1"
        "calls s1 = calls s @ [group_call d g]" "query s1 = query s" "wordtree s1 = wordtree s"
      by blast
    from Cons.IH [OF s1(2) es] obtain s' gs g'
      where r: "tree_trav cb_delim es s1 = Some s'" "group_open d g' s'"
        "groups ([e] @ es) = gs @ [g']" "calls s' = calls s1 @ map (group_call d) gs"
        "query s' = query s1" "wordtree s' = wordtree s1"
      by blast
    have "groups (g @ e # es) = g # groups (e # es)"
      using ne same False by (rule groups_split)
    then show ?thesis
      using s1 r by (intro exI [of _ s'] exI [of _ "g # gs"] exI [of _ g']) simp
  qed
qed

lemma tree_trav_append:
  "tree_trav f (xs @ ys) s = (case tree_trav f xs s of None \<Rightarrow> None | Some s' \<Rightarrow> tree_trav f ys s')"
  by (induction xs arbitrary: s) (simp_all split: option.splits)


lemma emit_delim_result:
  assumes t: "wordtree s = as @ cs" and as: "\<forall>e\<in>set as. \<not> is_cjk e"
    and cs: "\<forall>e\<in>set cs. cjk4 e" and seed: "4 \<le> length seed"
  defines "d \<equiv> take 4 seed"
  defines "s2 \<equiv> s\<lparr>delim := memcpy (delim s) 0 d, last_en := None\<rparr>"
  shows "\<exists>s3 s'. tree_trav cb_delim (wordtree s) s2 = Some s3 \<and>
           calls s3 = calls s @ map (ascii_call d) as @ map (group_call d) (butlast (groups cs)) \<and>
           emit_delim seed s = Some s' \<and>
           calls s' = calls s @ map (ascii_call d) as @ map (group_call d) (groups cs) \<and>
           valp s' = valp s3 \<and> query s' = query s \<and>
           (cs \<noteq> [] \<longrightarrow> valp s3 + 1 = 4 + 3 * length (last (groups cs)))"
proof -
  have len: "length d = 4" using seed by (simp add: d_def)
  have "map (memcpy (delim s) 0 d) [0..<0 + length d] = map (delim s) [0..<0] @ d"
    by (rule map_memcpy_val)
  then have d2: "map (delim s2) [0..<4] = d"
    by (simp add: len s2_def del: upt_rec_numeral)
  from tree_trav_ascii_calls [OF as d2] obtain sa
    where sa: "tree_trav cb_delim as s2 = Some sa" "calls sa = calls s2 @ map (ascii_call d) as"
      "last_en sa = last_en s2" "delim sa = delim s2" "query sa = query s2"
      "wordtree sa = wordtree s2"
    by blast
  have da: "map (delim sa) [0..<4] = d" using d2 sa(4) by (simp del: upt_rec_numeral)
  have la: "last_en sa = None" using sa(3) by (simp add: s2_def)
  have emit: "emit_delim seed s =
      (case tree_trav cb_delim (wordtree s) s2 of None \<Rightarrow> None
       | Some s3 \<Rightarrow> (case last_en s3 of
            Some l \<Rightarrow> (if 2 \<le> length (word l) then Some (flush_group (take 2 (word l)) s3) else None)
          | None \<Rightarrow> Some s3))"
    using seed by (simp add: emit_delim_def s2_def d_def Let_def split: option.splits)
  have trav: "tree_trav cb_delim (wordtree s) s2 = tree_trav cb_delim cs sa"
    using sa(1) by (simp add: t tree_trav_append)
  show ?thesis
  proof (cases cs)
    case Nil
    with trav emit sa la show ?thesis
      by (intro exI [of _ sa]) (simp add: s2_def)
  next
    case (Cons c cs')
    with cs have c: "cjk4 c" and cs': "\<forall>e\<in>set cs'. cjk4 e" by simp_all
    from cb_delim_first [OF la c da] obtain s1
      where s1: "cb_delim c sa = Some s1" "group_open d [c] s1" "calls s1 = calls sa"
        "query s1 = query sa"
      by blast
    from tree_trav_group [OF s1(2) cs'] obtain s3 gs g'
      where r: "tree_trav cb_delim cs' s1 = Some s3" "group_open d g' s3"
        "groups ([c] @ cs') = gs @ [g']" "calls s3 = calls s1 @ map (group_call d) gs"
        "query s3 = query s1"
      by blast
    have g: "groups cs = gs @ [g']" using r(3) Cons by simp
    have t3: "tree_trav cb_delim (wordtree s) s2 = Some s3"
      using trav Cons s1(1) r(1) by simp
    note go = group_openD [OF r(2)]
    note l = group_open_last [OF r(2)]
    from l(2) obtain a b x y where wl: "word (last g') = [a, b, x, y]" by (rule cjk4_word)
    have fl: "calls (flush_group (take 2 (word (last g'))) s3) = calls s3 @ [group_call d g']"
      using go(5,6) l(3) by (simp add: flush_group_def cb_def group_call_def prefix2_def)
    let ?s' = "flush_group (take 2 (word (last g'))) s3"
    have e: "emit_delim seed s = Some ?s'"
      using emit t3 l(1) wl by simp
    have c3: "calls s3 = calls s @ map (ascii_call d) as @ map (group_call d) (butlast (groups cs))"
      using r(4) s1(3) sa(2) g by (simp add: s2_def)
    have c': "calls ?s' = calls s @ map (ascii_call d) as @ map (group_call d) (groups cs)"
      using fl c3 g by simp
    have vp: "valp s3 + 1 = 4 + 3 * length (last (groups cs))"
      using go(5) g by simp
    have v: "valp ?s' = valp s3" "query ?s' = query s"
      using r(5) s1(4) sa(5) by (simp_all add: s2_def flush_group_def cb_def)
    show ?thesis
      using t3 c3 e c' v vp by blast
  qed
qed




lemma length_triples:
  "\<forall>e\<in>set g. cjk4 e \<Longrightarrow> length (concat (map triple g)) = 3 * length g"
  by (induction g) (simp_all add: triple_def cjk4_def)



lemma of_nat_byte_nonzero: "0 < n \<Longrightarrow> n < 256 \<Longrightarrow> (of_nat n :: byte) \<noteq> 0"
proof
  assume n: "0 < n" "n < 256" and z: "(of_nat n :: byte) = 0"
  have "unat (of_nat n :: byte) = n" using n(2) by (simp add: unat_of_nat)
  with z n(1) show False by simp
qed

lemma big_group_entries:
  "\<forall>e\<in>set big_group. cjk4 e \<and> prefix2 e = [0xa4, 0x40]"
  by (auto simp: big_group_def cjk4_def prefix2_def is_big5_def of_nat_byte_nonzero)

lemma length_big_group: "length big_group = 10965"
  by (simp add: big_group_def)


section \<open>The delimiter and the query flag\<close>

text \<open>
  \<^verbatim>\<open>parse_delim\<close> has three parameters, the buffer, the seed and the callback. It copies
  the seed to \<^verbatim>\<open>delim\<close> after the tokenizer has run and before the traversal; nothing in
  the file assigns \<^verbatim>\<open>query\<close>, which the tokenizer reads.
\<close>

lemma bytes_at_length: "bytes_at w off n = Some bs \<Longrightarrow> length bs = n"
  by (auto simp: bytes_at_def split: if_splits)

lemma take4_value:
  "3 \<le> n \<Longrightarrow> take 4 (map v [0..<n + 1]) = map v [0..<4]"
proof -
  assume "3 \<le> n"
  then have "[0..<n + 1] = [0..<4] @ [4..<n + 1]"
    by (metis add.commute add_2_eq_Suc' le_add1 le_add_diff_inverse numeral_Bit0 numeral_3_eq_3
        plus_1_eq_Suc upt_add_eq_append add_Suc_right Suc_le_mono zero_le Suc_eq_plus1
        le_imp_less_Suc less_imp_le_nat)
  then show ?thesis by (simp del: upt_rec_numeral)
qed

lemma open_group_keeps:
  assumes "open_group e s = Some s'"
  shows "valp s' = 6" "map (val s') [0..<4] = map (delim s) [0..<4]" "delim s' = delim s"
    "query s' = query s" "calls s' = calls s" "last_en s' = last_en s"
proof -
  from assms obtain pfx sfx where p: "bytes_at (word e) 0 2 = Some pfx"
    and s: "bytes_at (word e) 2 2 = Some sfx"
    and s': "s' = s\<lparr>key := (memcpy (key s) 0 pfx)(2 := 0),
        val := (memcpy (memcpy (val s) 0 (map (delim s) [0..<4])) 4 sfx)
                 (6 := ucast (emitted (freq e))), valp := 6\<rparr>"
    by (auto simp: open_group_def Let_def bind_eq_Some_conv simp del: upt_rec_numeral)
  show "valp s' = 6" "delim s' = delim s" "query s' = query s" "calls s' = calls s"
    "last_en s' = last_en s"
    by (simp_all add: s')
  show "map (val s') [0..<4] = map (delim s) [0..<4]"
    by (simp add: s' memcpy_def)
qed

lemma flush_group_starts:
  assumes "3 \<le> valp s" "map (val s) [0..<4] = d"
  shows "\<exists>c. calls (flush_group k s) = calls s @ [c] \<and> starts_with d c"
  using assms take4_value [OF assms(1), of "val s"]
  by (simp add: flush_group_def cb_def starts_with_def del: upt_rec_numeral)

lemma flush_group_frame [simp]:
  "delim (flush_group k s) = delim s" "query (flush_group k s) = query s"
  "val (flush_group k s) = val s" "valp (flush_group k s) = valp s"
  "last_en (flush_group k s) = last_en s" "wordtree (flush_group k s) = wordtree s"
  "key (flush_group k s) = key s"
  by (simp_all add: flush_group_def cb_def)


lemma map_memcpy_four: "length d = 4 \<Longrightarrow> map (memcpy m 0 d) [0..<4] = d"
  using map_memcpy_val [of m 0 d] by (simp del: upt_rec_numeral)

lemma cb_delim_keeps:
  assumes "cb_delim e s = Some s'" "delim_kept d s"
  shows "delim_kept d s' \<and> query s' = query s \<and>
         (\<exists>cs. calls s' = calls s @ cs \<and> (\<forall>c\<in>set cs. starts_with d c))"
proof -
  from assms(2) have dl: "map (delim s) [0..<4] = d"
    and open_inv: "last_en s \<noteq> None \<Longrightarrow> 3 \<le> valp s \<and> map (val s) [0..<4] = d"
    by (simp_all add: delim_kept_def del: upt_rec_numeral)
  obtain b0 where b0: "rd (word e) 0 = Some b0"
    by (cases "word e") (simp_all add: rd_def)
  show ?thesis
  proof (cases "is_big5 b0")
    case False
    let ?v = "(memcpy (val s) 0 (map (delim s) [0..<4]))
                (4 := 0x20, 5 := 0x20, 6 := ucast (emitted (freq e)))"
    let ?s1 = "s\<lparr>val := ?v, valp := 6\<rparr>"
    from False b0 assms(1) have s': "s' = flush_group (word e) ?s1"
      by (simp add: cb_delim_def Let_def del: upt_rec_numeral)
    have "length (map (delim s) [0..<4]) = 4" by simp
    then have "map (memcpy (val s) 0 (map (delim s) [0..<4])) [0..<4] = map (delim s) [0..<4]"
      by (rule map_memcpy_four)
    then have v: "map (val ?s1) [0..<4] = d"
      using dl by (simp add: map_fun_upd del: upt_rec_numeral)
    have "3 \<le> valp ?s1" by simp
    from flush_group_starts [OF this v, of "word e"] obtain c
      where c: "calls s' = calls s @ [c]" "starts_with d c"
      by (auto simp: s')
    have "delim_kept d s'"
      using dl v by (simp add: delim_kept_def s' del: upt_rec_numeral)
    with c show ?thesis by (auto simp: s')
  next
    case True
    show ?thesis
    proof (cases "last_en s")
      case None
      with True b0 assms(1) obtain s1 where og: "open_group e s = Some s1"
        and s': "s' = s1\<lparr>last_en := Some e\<rparr>"
        by (auto simp: cb_delim_def bind_eq_Some_conv)
      note k = open_group_keeps [OF og]
      have "delim_kept d s'"
        using k dl by (simp add: delim_kept_def s' del: upt_rec_numeral)
      with k show ?thesis by (simp add: s')
    next
      case (Some l)
      with open_inv have inv: "3 \<le> valp s" "map (val s) [0..<4] = d" by simp_all
      from True b0 Some assms(1) consider
        (same) sfx where "bytes_at (word e) 2 2 = Some sfx"
          "s' = s\<lparr>val := (memcpy (val s) (valp s + 1) sfx)
                  (valp s + 3 := ucast (emitted (freq e))), valp := valp s + 3,
                  last_en := Some e\<rparr>"
        | (other) s1 where "open_group e (flush_group (key_string (key s)) s) = Some s1"
          "s' = s1\<lparr>last_en := Some e\<rparr>"
        by (auto simp: cb_delim_def bind_eq_Some_conv split: if_splits)
      then show ?thesis
      proof cases
        case same
        have "map (val s') [0..<4] = map (val s) [0..<4]"
          using inv(1) by (simp add: same(2) memcpy_def)
        then have "delim_kept d s'"
          using dl inv by (simp add: delim_kept_def same(2) del: upt_rec_numeral)
        then show ?thesis by (simp add: same(2))
      next
        case other
        let ?s0 = "flush_group (key_string (key s)) s"
        note k = open_group_keeps [OF other(1)]
        from flush_group_starts [OF inv, of "key_string (key s)"] obtain c
          where c: "calls ?s0 = calls s @ [c]" "starts_with d c"
          by blast
        have "delim_kept d s'"
          using k dl by (simp add: delim_kept_def other(2) del: upt_rec_numeral)
        with k c show ?thesis by (auto simp: other(2))
      qed
    qed
  qed
qed

lemma tree_trav_keeps:
  assumes "tree_trav cb_delim es s = Some s'" "delim_kept d s"
  shows "delim_kept d s' \<and> query s' = query s \<and>
         (\<exists>cs. calls s' = calls s @ cs \<and> (\<forall>c\<in>set cs. starts_with d c))"
  using assms
proof (induction es arbitrary: s)
  case Nil
  then show ?case by simp
next
  case (Cons e es)
  from Cons.prems(1) obtain s1 where s1: "cb_delim e s = Some s1"
    and r: "tree_trav cb_delim es s1 = Some s'"
    by (auto split: option.splits)
  from cb_delim_keeps [OF s1 Cons.prems(2)] obtain cs1
    where k1: "delim_kept d s1" "query s1 = query s" "calls s1 = calls s @ cs1"
      "\<forall>c\<in>set cs1. starts_with d c"
    by blast
  from Cons.IH [OF r k1(1)] obtain cs2
    where k2: "delim_kept d s'" "query s' = query s1" "calls s' = calls s1 @ cs2"
      "\<forall>c\<in>set cs2. starts_with d c"
    by blast
  have "calls s' = calls s @ (cs1 @ cs2)" "\<forall>c\<in>set (cs1 @ cs2). starts_with d c"
    using k1 k2 by auto
  with k1 k2 show ?case by metis
qed

lemma emit_delim_keeps:
  assumes "emit_delim seed s = Some s'"
  shows "map (delim s') [0..<4] = take 4 seed \<and> query s' = query s \<and>
         (\<exists>cs. calls s' = calls s @ cs \<and> (\<forall>c\<in>set cs. starts_with (take 4 seed) c))"
proof -
  let ?d = "take 4 seed"
  let ?s2 = "s\<lparr>delim := memcpy (delim s) 0 ?d, last_en := None\<rparr>"
  from assms have seed: "4 \<le> length seed"
    by (auto simp: emit_delim_def split: if_splits)
  with assms obtain s3 where t: "tree_trav cb_delim (wordtree s) ?s2 = Some s3"
    and fin: "(case last_en s3 of
                 Some l \<Rightarrow> (if 2 \<le> length (word l)
                            then Some (flush_group (take 2 (word l)) s3) else None)
               | None \<Rightarrow> Some s3) = Some s'"
    by (auto simp: emit_delim_def Let_def bind_eq_Some_conv)
  have "length ?d = 4" using seed by simp
  then have "map (memcpy (delim s) 0 ?d) [0..<4] = ?d"
    by (rule map_memcpy_four)
  then have "map (delim ?s2) [0..<4] = ?d"
    by (simp del: upt_rec_numeral)
  then have "delim_kept ?d ?s2"
    by (simp add: delim_kept_def del: upt_rec_numeral)
  from tree_trav_keeps [OF t this] obtain cs
    where k: "delim_kept ?d s3" "query s3 = query ?s2" "calls s3 = calls ?s2 @ cs"
      "\<forall>c\<in>set cs. starts_with ?d c"
    by blast
  from k(1) have d3: "map (delim s3) [0..<4] = ?d"
    and inv: "last_en s3 \<noteq> None \<Longrightarrow> 3 \<le> valp s3 \<and> map (val s3) [0..<4] = ?d"
    by (simp_all add: delim_kept_def del: upt_rec_numeral)
  show ?thesis
  proof (cases "last_en s3")
    case None
    with fin have "s' = s3" by simp
    with k d3 show ?thesis by auto
  next
    case (Some l)
    with fin have s': "s' = flush_group (take 2 (word l)) s3"
      by (simp split: if_splits)
    from inv Some have "3 \<le> valp s3" "map (val s3) [0..<4] = ?d" by simp_all
    from flush_group_starts [OF this, of "take 2 (word l)"] obtain c
      where c: "calls s' = calls s3 @ [c]" "starts_with ?d c"
      by (auto simp: s')
    have "calls s' = calls s @ (cs @ [c])" "\<forall>x\<in>set (cs @ [c]). starts_with ?d x"
      using k c by auto
    moreover have "map (delim s') [0..<4] = ?d" "query s' = query s"
      using d3 k(2) by (simp_all add: s' del: upt_rec_numeral)
    ultimately show ?thesis by metis
  qed
qed




section \<open>The buffer after a run\<close>

text \<open>
  The tokenizer writes to the caller's buffer: it lower-cases the letters of each ASCII
  run in place. Run again on the buffer it left, it changes nothing more and ends in the
  same state: the bytes it reads are the ones it read or wrote the first time.
\<close>

lemma upper_lower:
  assumes "is_upper b"
  shows "is_alnum (b + 32)" "\<not> is_upper (b + 32)" "\<not> is_big5 (b + 32)" "b + 32 \<noteq> 0"
    "is_alnum b" "\<not> is_big5 b" "b \<noteq> 0" "\<not> is_big5word (b + 32)" "\<not> is_big5word b"
proof -
  from assms have u: "64 < unat b" "unat b < 91"
    by (simp_all add: is_upper_def word_less_nat_alt)
  have "unat b + unat (32 :: byte) < 2 ^ LENGTH(8)" using u by simp
  then have "unat (b + 32) = unat b + unat (32 :: byte)"
    by (simp only: unat_add_lem [THEN iffD1])
  then have a: "unat (b + 32) = unat b + 32" by simp
  show "is_alnum (b + 32)" "\<not> is_upper (b + 32)" "\<not> is_big5 (b + 32)"
    "is_alnum b" "\<not> is_big5 b" "\<not> is_big5word (b + 32)" "\<not> is_big5word b"
    using u a by (simp_all add: is_alnum_def is_upper_def is_big5_def is_big5word_def word_less_nat_alt)
  show "b + 32 \<noteq> 0" "b \<noteq> 0"
    using u a by auto
qed

lemma lower_class [simp]:
  "is_alnum (lower b) = is_alnum b" "is_big5 (lower b) = is_big5 b"
  "is_big5word (lower b) = is_big5word b" "(lower b = 0) = (b = 0)" "\<not> is_upper (lower b)"
  "lower (lower b) = lower b"
  using upper_lower [of b] by (auto simp: lower_def)

lemma not_alnum_lower: "\<not> is_alnum b \<Longrightarrow> lower b = b"
  using upper_lower(5) [of b] by (auto simp: lower_def)

lemma alnum_loop_result:
  assumes "alnum_loop b p n = Some (b2, q, n')"
  shows "p < q \<and> q \<le> length b \<and> length b2 = length b \<and> n' = n + (q - p) \<and>
         (\<forall>i. i < p \<or> q \<le> i \<longrightarrow> b2 ! i = b ! i) \<and>
         (\<forall>i. p \<le> i \<and> i < q \<longrightarrow> b2 ! i = lower (b ! i)) \<and>
         (\<forall>i. p < i \<and> i < q \<longrightarrow> is_alnum (b ! i)) \<and>
         (\<exists>c. rd b q = Some c \<and> \<not> is_alnum c)"
  using assms
proof (induction b p n arbitrary: b2 q n' rule: alnum_loop.induct)
  case (1 buf p n)
  from "1.prems" obtain x where x: "rd buf p = Some x"
    by (simp add: alnum_loop.simps [of buf p n] split: option.splits)
  define buf1 where "buf1 = (if is_upper x then buf[p := x + 32] else buf)"
  have len: "length buf1 = length buf" by (simp add: buf1_def)
  from "1.prems" x obtain c where c: "rd buf1 (p + 1) = Some c"
    by (simp add: alnum_loop.simps [of buf p n] buf1_def Let_def split: option.splits)
  from c len have pl: "p < length buf"
    by (auto simp: rd_def split: if_splits)
  with x have xb: "x = buf ! p" by (simp add: rd_def)
  have b1p: "buf1 ! p = lower (buf ! p)"
    using pl by (simp add: buf1_def lower_def xb)
  have b1o: "i \<noteq> p \<Longrightarrow> buf1 ! i = buf ! i" for i
    by (simp add: buf1_def)
  have rdc: "rd buf (p + 1) = Some c"
    using c len b1o [of "p + 1"] by (simp add: rd_def split: if_splits)
  show ?case
  proof (cases "is_alnum c")
    case False
    with "1.prems" x c have r: "b2 = buf1" "q = p + 1" "n' = n + 1"
      by (simp_all add: alnum_loop.simps [of buf p n] buf1_def [symmetric] Let_def)
    have "\<forall>i. p \<le> i \<and> i < p + 1 \<longrightarrow> buf1 ! i = lower (buf ! i)"
      using b1p by (auto simp: le_less_Suc_eq)
    then show ?thesis
      using r len pl b1o rdc False by auto
  next
    case True
    with "1.prems" x c have rec: "alnum_loop buf1 (p + 1) (n + 1) = Some (b2, q, n')"
      by (simp add: alnum_loop.simps [of buf p n] buf1_def [symmetric] Let_def)
    from "1.IH" [OF x buf1_def c True rec]
    have ih: "p + 1 < q" "q \<le> length buf1" "length b2 = length buf1" "n' = n + 1 + (q - (p + 1))"
      "\<And>i. i < p + 1 \<or> q \<le> i \<Longrightarrow> b2 ! i = buf1 ! i"
      "\<And>i. p + 1 \<le> i \<and> i < q \<Longrightarrow> b2 ! i = lower (buf1 ! i)"
      "\<And>i. p + 1 < i \<and> i < q \<Longrightarrow> is_alnum (buf1 ! i)"
      "\<exists>c. rd buf1 q = Some c \<and> \<not> is_alnum c"
      by blast+
    have cb: "c = buf ! (p + 1)"
      using rdc ih(1,2) len by (simp add: rd_def)
    have "rd buf q = rd buf1 q"
      using ih(1) len b1o [of q] by (simp add: rd_def)
    with ih(8) have e: "\<exists>c. rd buf q = Some c \<and> \<not> is_alnum c" by simp
    have lo: "b2 ! i = lower (buf ! i)" if "p \<le> i \<and> i < q" for i
    proof (cases "i = p")
      case True
      then show ?thesis using ih(5) [of p] b1p by simp
    next
      case False
      with that ih(6) [of i] b1o [of i] show ?thesis by simp
    qed
    have al: "is_alnum (buf ! i)" if "p < i \<and> i < q" for i
    proof (cases "i = p + 1")
      case True
      then show ?thesis using \<open>is_alnum c\<close> cb by simp
    next
      case False
      with that ih(7) [of i] b1o [of i] show ?thesis by simp
    qed
    have fr: "b2 ! i = buf ! i" if "i < p \<or> q \<le> i" for i
      using that ih(5) [of i] ih(1) b1o [of i] by auto
    show ?thesis
      using ih(1-4) len e lo al fr by auto
  qed
qed

lemma lowered_refl [simp]: "lowered q b b"
  by (simp add: lowered_def)

lemma lowered_rd_before: "lowered q b b' \<Longrightarrow> i < q \<Longrightarrow> rd b' i = rd b i"
  by (simp add: lowered_def rd_def)

lemma lowered_rd:
  assumes "lowered q b b'" "rd b i = Some c"
  shows "\<exists>c'. rd b' i = Some c' \<and> (c' = c \<or> (is_upper c \<and> c' = lower c))"
proof (cases "i < length b")
  case True
  with assms show ?thesis by (auto simp: lowered_def rd_def)
next
  case False
  with assms show ?thesis by (auto simp: lowered_def rd_def split: if_splits)
qed

lemma lowered_rd_big5word:
  assumes "lowered q b b'" "rd b i = Some c"
  shows "\<exists>c'. rd b' i = Some c' \<and> is_big5word c' = is_big5word c"
  using lowered_rd [OF assms] by auto

lemma lowered_strncpy:
  assumes "lowered q b b'" "off + n \<le> q"
  shows "strncpy_src b' off n = strncpy_src b off n"
proof -
  from assms(1) have len: "length b' = length b" and eq: "\<And>i. i < q \<Longrightarrow> b' ! i = b ! i"
    by (simp_all add: lowered_def)
  have "take n (drop off b') = take n (drop off b)"
  proof (rule nth_equalityI)
    show "length (take n (drop off b')) = length (take n (drop off b))"
      by (simp add: len)
  next
    fix i assume "i < length (take n (drop off b'))"
    then have i: "i < n" "off + i < length b" by (auto simp: len)
    with assms(2) have "off + i < q" by simp
    from eq [OF this] i len show "take n (drop off b') ! i = take n (drop off b) ! i"
      by simp
  qed
  then show ?thesis by (simp add: strncpy_src_def len)
qed

lemma lowered_big5_loop:
  assumes "big5_loop b p s = Some (q, s')" "lowered q b b'"
  shows "big5_loop b' p s = Some (q, s')"
  using assms
proof (induction b p s rule: big5_loop.induct)
  case (1 buf p s)
  from "1.prems"(1) obtain c where c: "rd buf (p + 2) = Some c"
    by (subst (asm) big5_loop.simps) (auto split: option.splits)
  from lowered_rd_big5word [OF "1.prems"(2) c] obtain c'
    where c': "rd b' (p + 2) = Some c'" "is_big5word c' = is_big5word c"
    by blast
  show ?case
  proof (cases "is_big5word c")
    case False
    with c "1.prems"(1) have "q = p + 2" "s' = s"
      by (subst (asm) big5_loop.simps, simp)+
    with False c' show ?thesis
      by (subst big5_loop.simps) simp
  next
    case True
    with c "1.prems"(1) obtain src where src: "strncpy_src buf p 4 = Some src"
      by (subst (asm) big5_loop.simps) (auto split: option.splits)
    let ?s1 = "addentry_key (s\<lparr>key := memcpy (key s) 0 src\<rparr>)"
    from True c src "1.prems"(1) have rec: "big5_loop buf (p + 2) ?s1 = Some (q, s')"
      by (subst (asm) big5_loop.simps) simp
    from big5_loop_advances [OF rec] have "p + 4 \<le> q" by simp
    from lowered_strncpy [OF "1.prems"(2) this] src
    have src': "strncpy_src b' p 4 = Some src" by simp
    from "1.IH" [OF c True src rec "1.prems"(2)]
    have "big5_loop b' (p + 2) ?s1 = Some (q, s')" .
    with True c' src' show ?thesis
      by (subst big5_loop.simps) simp
  qed
qed

lemma lowered_big5_branch:
  assumes "big5_branch b p s = Some (q, s')" "lowered q b b'"
  shows "big5_branch b' p s = Some (q, s')"
proof -
  from assms(1) obtain c where c: "rd b (p + 2) = Some c"
    by (auto simp: big5_branch_def split: option.splits)
  from lowered_rd_big5word [OF assms(2) c] obtain c'
    where c': "rd b' (p + 2) = Some c'" "is_big5word c' = is_big5word c"
    by blast
  show ?thesis
  proof (cases "is_big5word c")
    case False
    with c assms(1) have q: "q = p + 2" and su: "single_unigram b (p + 2) s = Some s'"
      by (auto simp: big5_branch_def)
    have r: "rd b' (p + 2 - 2) = rd b (p + 2 - 2)"
      by (rule lowered_rd_before [OF assms(2)]) (simp add: q)
    have st: "strncpy_src b' (p + 2 - 2) 2 = strncpy_src b (p + 2 - 2) 2"
      by (rule lowered_strncpy [OF assms(2)]) (simp add: q)
    have "single_unigram b' (p + 2) s = single_unigram b (p + 2) s"
      by (simp only: single_unigram_def r st)
    with su have "single_unigram b' (p + 2) s = Some s'" by simp
    with False c' q show ?thesis by (simp add: big5_branch_def)
  next
    case True
    with c assms(1) obtain s2 s3 where fb: "first_bigram b (p + 2) s = Some s2"
      and lp: "big5_loop b (p + 2) s2 = Some (q, s3)"
      and tu: "trailing_unigram b q s3 = Some s'"
      by (auto simp: big5_branch_def bind_eq_Some_conv)
    from big5_loop_advances [OF lp] have q4: "p + 4 \<le> q" by simp
    have r: "rd b' (p + 2 - 2) = rd b (p + 2 - 2)"
      by (rule lowered_rd_before [OF assms(2)]) (use q4 in simp)
    have st: "strncpy_src b' (p + 2 - 2) 4 = strncpy_src b (p + 2 - 2) 4"
      by (rule lowered_strncpy [OF assms(2)]) (use q4 in simp)
    have "first_bigram b' (p + 2) s = first_bigram b (p + 2) s"
      by (simp only: first_bigram_def r st)
    with fb have fb': "first_bigram b' (p + 2) s = Some s2" by simp
    from lowered_big5_loop [OF lp assms(2)] have lp': "big5_loop b' (p + 2) s2 = Some (q, s3)" .
    have r4: "rd b' (q - 4) = rd b (q - 4)"
      by (rule lowered_rd_before [OF assms(2)]) (use q4 in simp)
    have st2: "strncpy_src b' (q - 2) 2 = strncpy_src b (q - 2) 2"
      by (rule lowered_strncpy [OF assms(2)]) (use q4 in simp)
    have "trailing_unigram b' q s3 = trailing_unigram b q s3"
      by (simp only: trailing_unigram_def r4 st2)
    with tu have tu': "trailing_unigram b' q s3 = Some s'" by simp
    from True c' fb' lp' tu' show ?thesis
      by (simp add: big5_branch_def)
  qed
qed

lemma alnum_loop_fixed:
  assumes "p < q" "q \<le> length bf" "\<forall>i. p \<le> i \<and> i < q \<longrightarrow> \<not> is_upper (bf ! i)"
    "\<forall>i. p < i \<and> i < q \<longrightarrow> is_alnum (bf ! i)" "rd bf q = Some c" "\<not> is_alnum c"
  shows "alnum_loop bf p n = Some (bf, q, n + (q - p))"
  using assms(1,3,4)
proof (induction "q - p" arbitrary: p n)
  case 0
  then show ?case by simp
next
  case (Suc k)
  from Suc.prems(1) assms(2) have pl: "p < length bf" by simp
  then have x: "rd bf p = Some (bf ! p)" by (simp add: rd_def)
  have nu: "\<not> is_upper (bf ! p)" using Suc.prems(1,2) by simp
  show ?case
  proof (cases "p + 1 = q")
    case True
    with x nu assms(5,6) show ?thesis
      by (subst alnum_loop.simps) simp
  next
    case False
    with Suc.prems(1) have lt: "p + 1 < q" by simp
    with assms(2) have r1: "rd bf (p + 1) = Some (bf ! (p + 1))" by (simp add: rd_def)
    have al: "is_alnum (bf ! (p + 1))" using Suc.prems(3) lt by simp
    have k: "k = q - (p + 1)" using Suc.hyps(2) by simp
    have "alnum_loop bf (p + 1) (n + 1) = Some (bf, q, n + 1 + (q - (p + 1)))"
      using Suc.prems(2,3) by (intro Suc.hyps(1) [OF k lt]) simp_all
    with x nu r1 al lt show ?thesis
      by (subst alnum_loop.simps) simp
  qed
qed

lemma lowered_trans:
  assumes "lowered p b b2" "lowered q b2 bf" "p \<le> q"
  shows "lowered p b bf"
proof -
  from assms(1) have 1: "length b2 = length b" "\<And>i. i < p \<Longrightarrow> b2 ! i = b ! i"
    "\<And>i. b2 ! i = b ! i \<or> (is_upper (b ! i) \<and> b2 ! i = lower (b ! i))"
    by (simp_all add: lowered_def)
  from assms(2) have 2: "length bf = length b2" "\<And>i. i < q \<Longrightarrow> bf ! i = b2 ! i"
    "\<And>i. bf ! i = b2 ! i \<or> (is_upper (b2 ! i) \<and> bf ! i = lower (b2 ! i))"
    by (simp_all add: lowered_def)
  have "bf ! i = b ! i \<or> (is_upper (b ! i) \<and> bf ! i = lower (b ! i))" for i
    using 1(3) [of i] 2(3) [of i] by (auto simp: lower_class(5))
  moreover have "bf ! i = b ! i" if "i < p" for i
    using that 1(2) [of i] 2(2) [of i] assms(3) by simp
  ultimately show ?thesis
    using 1(1) 2(1) by (simp add: lowered_def)
qed

lemma extract_step_lowered:
  assumes "extract_step b p s = Some (b2, q, s2)"
  shows "lowered p b b2"
proof -
  from assms obtain x where x: "rd b p = Some x"
    by (auto simp: extract_step_def split: option.splits)
  consider "is_big5 x" | "\<not> is_big5 x" "is_alnum x" | "\<not> is_big5 x" "\<not> is_alnum x"
    by blast
  then show ?thesis
  proof cases
    case 1
    with x assms have "b2 = b" by (auto simp: extract_step_def)
    then show ?thesis by simp
  next
    case 3
    with x assms have "b2 = b" by (auto simp: extract_step_def)
    then show ?thesis by simp
  next
    case 2
    with x assms have "alnum_branch b p s = Some (b2, q, s2)"
      by (simp add: extract_step_def)
    then obtain xlen where "alnum_loop b p 0 = Some (b2, q, xlen)"
      by (auto simp: alnum_branch_def bind_eq_Some_conv split: if_splits)
    from alnum_loop_result [OF this]
    have r: "length b2 = length b" "\<And>i. i < p \<or> q \<le> i \<Longrightarrow> b2 ! i = b ! i"
      "\<And>i. p \<le> i \<and> i < q \<Longrightarrow> b2 ! i = lower (b ! i)"
      by blast+
    have "b2 ! i = b ! i \<or> (is_upper (b ! i) \<and> b2 ! i = lower (b ! i))" for i
      using r(2) [of i] r(3) [of i] by (cases "p \<le> i \<and> i < q") (auto simp: lower_def)
    then show ?thesis using r(1,2) by (simp add: lowered_def)
  qed
qed

lemma extract_loop_lowered:
  "extract_loop b p s = Some (bf, sf) \<Longrightarrow> lowered p b bf"
proof (induction b p s rule: extract_loop.induct)
  case (1 buf p s)
  from "1.prems" obtain x where x: "rd buf p = Some x"
    by (subst (asm) extract_loop.simps) (auto split: option.splits)
  show ?case
  proof (cases "x = 0")
    case True
    with x "1.prems" have "bf = buf"
      by (subst (asm) extract_loop.simps) simp
    then show ?thesis by simp
  next
    case False
    with x "1.prems" obtain b2 q s2 where st: "extract_step buf p s = Some (b2, q, s2)"
      and rec: "extract_loop b2 q s2 = Some (bf, sf)"
      by (subst (asm) extract_loop.simps) (auto split: option.splits)
    from extract_step_advances [OF st] have "p \<le> q" by simp
    from lowered_trans [OF extract_step_lowered [OF st] "1.IH" [OF x False st refl refl rec] this]
    show ?thesis .
  qed
qed

lemma extract_step_rerun:
  assumes st: "extract_step b p s = Some (b2, q, s2)" and lo: "lowered q b2 bf"
  shows "extract_step bf p s = Some (bf, q, s2) \<and>
         (\<exists>x x'. rd b p = Some x \<and> rd bf p = Some x' \<and> (x' = 0) = (x = 0))"
proof -
  from st obtain x where x: "rd b p = Some x"
    by (auto simp: extract_step_def split: option.splits)
  from extract_step_advances [OF st] have pq: "p < q" and len2: "length b2 = length b"
    by simp_all
  have rp: "rd bf p = rd b2 p" using lo pq by (rule lowered_rd_before)
  consider "is_big5 x" | "\<not> is_big5 x" "is_alnum x" | "\<not> is_big5 x" "\<not> is_alnum x"
    by blast
  then show ?thesis
  proof cases
    case 1
    with x st have b2: "b2 = b" and br: "big5_branch b p s = Some (q, s2)"
      by (auto simp: extract_step_def)
    from lowered_big5_branch [OF br] lo b2 have "big5_branch bf p s = Some (q, s2)" by simp
    with 1 x rp b2 show ?thesis by (simp add: extract_step_def)
  next
    case 3
    with x st have "b2 = b" "q = p + 1" "s2 = s" by (auto simp: extract_step_def)
    with 3 x rp show ?thesis by (simp add: extract_step_def)
  next
    case 2
    with x st have ab: "alnum_branch b p s = Some (b2, q, s2)"
      by (simp add: extract_step_def)
    then obtain xlen where al: "alnum_loop b p 0 = Some (b2, q, xlen)"
      by (auto simp: alnum_branch_def bind_eq_Some_conv split: if_splits)
    from alnum_loop_result [OF al]
    have r: "q \<le> length b" "xlen = q - p" "\<And>i. i < p \<or> q \<le> i \<Longrightarrow> b2 ! i = b ! i"
      "\<And>i. p \<le> i \<and> i < q \<Longrightarrow> b2 ! i = lower (b ! i)"
      "\<And>i. p < i \<and> i < q \<Longrightarrow> is_alnum (b ! i)"
      and "\<exists>c. rd b q = Some c \<and> \<not> is_alnum c"
      by auto
    then obtain c where c: "rd b q = Some c" "\<not> is_alnum c" by blast
    from lo have lenf: "length bf = length b2" and eqf: "\<And>i. i < q \<Longrightarrow> bf ! i = b2 ! i"
      by (simp_all add: lowered_def)
    have "rd b2 q = Some c"
      using c(1) r(3) [of q] len2 by (auto simp: rd_def split: if_splits)
    from lowered_rd [OF lo this] c(2) upper_lower(5) [of c] have cf: "rd bf q = Some c"
      by auto
    have nu: "\<forall>i. p \<le> i \<and> i < q \<longrightarrow> \<not> is_upper (bf ! i)"
      using eqf r(4) by simp
    have an: "\<forall>i. p < i \<and> i < q \<longrightarrow> is_alnum (bf ! i)"
      using eqf r(4,5) by simp
    have ql: "q \<le> length bf" using r(1) lenf len2 by simp
    from alnum_loop_fixed [OF pq ql nu an cf c(2), of 0]
    have alf: "alnum_loop bf p 0 = Some (bf, q, xlen)" by (simp add: r(2))
    have cp: "strncpy_src bf p n = strncpy_src b2 p n" if "n \<le> xlen" for n
      by (rule lowered_strncpy [OF lo]) (use that r(2) pq in simp)
    have "alnum_branch bf p s = Some (bf, q, s2)"
    proof (cases "xlen > 1")
      case False
      with ab al have "s2 = s" by (simp add: alnum_branch_def)
      with False alf show ?thesis by (simp add: alnum_branch_def)
    next
      case True
      define n where "n = (if xlen > MAXKEY then MAXKEY else xlen)"
      have "n \<le> xlen" by (simp add: n_def)
      from cp [OF this] ab al alf True show ?thesis
        by (auto simp: alnum_branch_def n_def [symmetric] Let_def bind_eq_Some_conv)
    qed
    moreover have xp: "x = b ! p" "p < length b"
      using x pq r(1) by (simp_all add: rd_def)
    then have "rd bf p = Some (lower x)"
      using rp r(4) [of p] pq len2 by (simp add: rd_def)
    ultimately show ?thesis using 2 x by (simp add: extract_step_def)
  qed
qed

lemma extract_loop_rerun:
  "extract_loop b p s = Some (bf, sf) \<Longrightarrow> extract_loop bf p s = Some (bf, sf)"
proof (induction b p s rule: extract_loop.induct)
  case (1 buf p s)
  from "1.prems" obtain x where x: "rd buf p = Some x"
    by (subst (asm) extract_loop.simps) (auto split: option.splits)
  show ?case
  proof (cases "x = 0")
    case True
    with x "1.prems" have "bf = buf" "sf = s"
      by (subst (asm) extract_loop.simps, simp)+
    with "1.prems" show ?thesis by simp
  next
    case False
    with x "1.prems" obtain b2 q s2 where st: "extract_step buf p s = Some (b2, q, s2)"
      and rec: "extract_loop b2 q s2 = Some (bf, sf)"
      by (subst (asm) extract_loop.simps) (auto split: option.splits)
    from "1.IH" [OF x False st refl refl rec] have ih: "extract_loop bf q s2 = Some (bf, sf)" .
    from extract_step_rerun [OF st extract_loop_lowered [OF rec]] x False
    obtain x' where "extract_step bf p s = Some (bf, q, s2)" "rd bf p = Some x'" "x' \<noteq> 0"
      by auto
    with ih show ?thesis
      by (subst extract_loop.simps) simp
  qed
qed

lemma extract_words_rerun:
  "extract_words b s = Some (bf, sf) \<Longrightarrow> extract_words bf s = Some (bf, sf)"
  unfolding extract_words_def by (rule extract_loop_rerun)


section \<open>The first byte of a stored word\<close>

text \<open>
  Every word in the table starts with a byte that \<^verbatim>\<open>is_alnum\<close> or \<^verbatim>\<open>is_big5word\<close> accepts. On
  such a byte the macro \<^verbatim>\<open>is_big5\<close> gives the same answer whether \<^verbatim>\<open>char\<close> is signed or not,
  so the branch that an emitter takes for an entry of the table does not depend on it.
\<close>

lemma uint_scast_byte: "uint (scast (b :: byte) :: u32) = sint b mod 4294967296"
proof -
  have "uint (word_of_int (sint b) :: u32) = sint b mod 2 ^ LENGTH(32)"
    by (rule uint_word_of_int)
  then show ?thesis by (simp only: scast_eq) simp
qed

lemma sint_byte: "sint (b :: byte) = (if uint b < 128 then uint b else uint b - 256)"
proof -
  have r: "0 \<le> uint b" "uint b < 256"
    using uint_lt2p [of b] by simp_all
  have s: "sint b = signed_take_bit 7 (uint b)"
    by (simp add: sint_uint)
  show ?thesis
  proof (cases "uint b < 128")
    case True
    have "- (2 ^ 7) \<le> (0 :: int)" by simp
    then have "- (2 ^ 7) \<le> uint b" using uint_ge_0 [of b] by (rule order_trans)
    moreover have "uint b < 2 ^ 7" using True by simp
    ultimately have "signed_take_bit 7 (uint b) = uint b"
      by (rule signed_take_bit_int_eq_self)
    with True s show ?thesis by simp
  next
    case False
    have "take_bit (Suc 7) (uint b) = take_bit (Suc 7) (uint b - 256)"
      by (simp add: take_bit_eq_mod)
    then have "signed_take_bit 7 (uint b) = signed_take_bit 7 (uint b - 256)"
      by (simp only: signed_take_bit_eq_iff_take_bit_eq)
    also have "\<dots> = uint b - 256"
    proof (rule signed_take_bit_int_eq_self)
      show "- (2 ^ 7) \<le> uint b - 256" using False by simp
      show "uint b - 256 < 2 ^ 7" using r by simp
    qed
    finally show ?thesis using False s by simp
  qed
qed

lemma is_big5_signed_iff: "is_big5_signed b \<longleftrightarrow> 0x80 \<le> b"
proof -
  have r: "0 \<le> uint b" "uint b < 256"
    using uint_lt2p [of b] by simp_all
  have "is_big5_signed b \<longleftrightarrow> 160 < sint b mod 4294967296"
    by (simp only: is_big5_signed_def word_less_def uint_scast_byte) simp
  also have "\<dots> \<longleftrightarrow> 128 \<le> uint b"
  proof (cases "uint b < 128")
    case True
    then have "sint b mod 4294967296 = uint b" using r by (simp add: sint_byte)
    with True show ?thesis by simp
  next
    case False
    have "(uint b - 256 + 4294967296) mod 4294967296 = (uint b - 256) mod 4294967296"
      by (rule mod_add_self2)
    with False have "sint b mod 4294967296 = (uint b - 256 + 4294967296) mod 4294967296"
      by (simp only: sint_byte if_False)
    also have "\<dots> = uint b - 256 + 4294967296"
      using r False by (intro mod_pos_pos_trivial) simp_all
    finally show ?thesis using False r by simp
  qed
  also have "\<dots> \<longleftrightarrow> 0x80 \<le> b"
    by (simp add: word_le_def)
  finally show ?thesis .
qed

lemma token_byte_sign_independent:
  "is_alnum b \<or> is_big5word b \<Longrightarrow> is_big5_signed b = is_big5 b"
  unfolding is_big5_signed_iff is_alnum_def is_big5word_def is_big5_def
  by (auto simp: word_less_nat_alt word_le_nat_alt)

lemma token_byte_nonzero: "is_alnum b \<or> is_big5word b \<Longrightarrow> b \<noteq> 0"
  by (auto simp: is_alnum_def is_big5word_def)

lemma key_token_start:
  "is_alnum (k 0) \<or> is_big5word (k 0) \<Longrightarrow> token_start (key_string k)"
  using token_byte_nonzero [of "k 0"]
  by (simp add: key_string_def token_start_def)

lemma strncpy_src_first:
  assumes "strncpy_src buf off n = Some src" "rd buf off = Some a" "a \<noteq> 0" "0 < n"
  shows "memcpy k 0 src 0 = a"
proof -
  from assms(2,3) have off: "off < length buf" and a: "a = buf ! off"
    by (auto simp: rd_def split: if_splits)
  from assms(4) obtain m where n: "n = Suc m" by (cases n) auto
  have "drop off buf = a # drop (Suc off) buf"
    using off a by (simp add: Cons_nth_drop_Suc)
  then have "takeWhile (\<lambda>b. b \<noteq> 0) (take n (drop off buf))
             = a # takeWhile (\<lambda>b. b \<noteq> 0) (take m (drop (Suc off) buf))"
    using assms(3) by (simp add: n)
  with assms(1) off obtain r where "src = a # r"
    by (auto simp: strncpy_src_def Let_def)
  then show ?thesis by (simp add: memcpy_def)
qed

lemma words_addentry: "word ` set (addentry w t) \<subseteq> insert w (word ` set t)"
proof (cases "tree_srch wordcmp \<lparr>word = w, freq = 0\<rparr> t")
  case None
  then have "addentry w t = tree_add wordcmp \<lparr>word = w, freq = 1\<rparr> t"
    by (simp add: addentry_def)
  with set_tree_add [of wordcmp "\<lparr>word = w, freq = 1\<rparr>" t] show ?thesis by auto
next
  case (Some i)
  then have "addentry w t = t[i := (t ! i)\<lparr>freq := freq (t ! i) + 1\<rparr>]"
    by (simp add: addentry_def)
  moreover have "map word (t[i := (t ! i)\<lparr>freq := f\<rparr>]) = map word t" for f
    by (simp add: map_update) (metis list_update_id map_update)
  ultimately have "map word (addentry w t) = map word t" by simp
  then have "word ` set (addentry w t) = word ` set t"
    by (metis set_map)
  then show ?thesis by auto
qed

lemma addentry_starts:
  "token_start w \<Longrightarrow> table_starts t \<Longrightarrow> table_starts (addentry w t)"
  using words_addentry [of w t] by (auto simp: table_starts_def)

lemma addentry_key_starts:
  assumes "table_starts (wordtree s)" "is_alnum (key s 0) \<or> is_big5word (key s 0)"
  shows "table_starts (wordtree (addentry_key s))"
  using assms by (simp add: addentry_key_def addentry_starts key_token_start)

lemma copied_token_starts:
  assumes "strncpy_src buf off n = Some src" "rd buf off = Some a"
    "is_alnum a \<or> is_big5word a" "0 < n" "table_starts (wordtree s)"
    "k 0 = memcpy (key s) 0 src 0"
  shows "table_starts (wordtree (addentry_key (s\<lparr>key := k\<rparr>)))"
proof -
  from strncpy_src_first [OF assms(1,2) token_byte_nonzero [OF assms(3)] assms(4)] assms(6)
  have "k 0 = a" by simp
  with assms(3,5) show ?thesis
    by (intro addentry_key_starts) simp_all
qed

lemma first_bigram_starts:
  assumes "first_bigram buf p s = Some s'" "table_starts (wordtree s)"
  shows "table_starts (wordtree s')"
proof -
  from assms(1) obtain a where a: "rd buf (p - 2) = Some a"
    by (auto simp: first_bigram_def Let_def bind_eq_Some_conv)
  show ?thesis
  proof (cases "is_big5word a")
    case False
    with a assms show ?thesis by (auto simp: first_bigram_def Let_def)
  next
    case True
    with a assms(1) obtain src where src: "strncpy_src buf (p - 2) 4 = Some src"
      and s': "s' = addentry_key (s\<lparr>key := memcpy ((key s)(4 := 0)) 0 src\<rparr>)"
      by (auto simp: first_bigram_def Let_def)
    have "memcpy ((key s)(4 := 0)) 0 src 0 = memcpy (key s) 0 src 0"
      by (simp add: memcpy_def)
    with copied_token_starts [OF src a _ _ assms(2)] True show ?thesis
      unfolding s' by simp
  qed
qed

lemma big5_loop_starts:
  assumes "big5_loop buf p s = Some (q, s')" "rd buf p = Some a" "is_big5word a"
    "table_starts (wordtree s)"
  shows "table_starts (wordtree s') \<and> (\<exists>a'. rd buf (q - 2) = Some a' \<and> is_big5word a')"
  using assms
proof (induction buf p s arbitrary: a rule: big5_loop.induct)
  case (1 buf p s)
  from "1.prems"(1) obtain c where c: "rd buf (p + 2) = Some c"
    by (subst (asm) big5_loop.simps) (auto split: option.splits)
  show ?case
  proof (cases "is_big5word c")
    case False
    with c "1.prems"(1) have "q = p + 2" "s' = s"
      by (subst (asm) big5_loop.simps, simp)+
    with "1.prems"(2,3,4) show ?thesis by simp
  next
    case True
    with c "1.prems"(1) obtain src where src: "strncpy_src buf p 4 = Some src"
      by (subst (asm) big5_loop.simps) (auto split: option.splits)
    let ?s1 = "addentry_key (s\<lparr>key := memcpy (key s) 0 src\<rparr>)"
    from True c src "1.prems"(1) have rec: "big5_loop buf (p + 2) ?s1 = Some (q, s')"
      by (subst (asm) big5_loop.simps) simp
    have "table_starts (wordtree ?s1)"
      using copied_token_starts [OF src "1.prems"(2) _ _ "1.prems"(4)] "1.prems"(3) by simp
    from "1.IH" [OF c True src rec c True this] show ?thesis .
  qed
qed

lemma trailing_unigram_starts:
  assumes "trailing_unigram buf p s = Some s'" "rd buf (p - 2) = Some a" "is_big5word a"
    "table_starts (wordtree s)"
  shows "table_starts (wordtree s')"
proof -
  from assms(1) obtain suppress
    where sup: "(if query s \<noteq> 0 then map_option is_big5word (rd buf (p - 4)) else Some False)
                = Some suppress"
    by (auto simp: trailing_unigram_def bind_eq_Some_conv)
  show ?thesis
  proof (cases suppress)
    case True
    with sup assms(1,4) show ?thesis by (simp add: trailing_unigram_def)
  next
    case False
    with sup assms(1) obtain src where src: "strncpy_src buf (p - 2) 2 = Some src"
      and s': "s' = addentry_key (s\<lparr>key := memcpy ((key s)(2 := 0x21, 3 := 0x21)) 0 src\<rparr>)"
      by (auto simp: trailing_unigram_def Let_def bind_eq_Some_conv)
    have "memcpy ((key s)(2 := 0x21, 3 := 0x21)) 0 src 0 = memcpy (key s) 0 src 0"
      by (simp add: memcpy_def)
    with copied_token_starts [OF src assms(2) _ _ assms(4)] assms(3) show ?thesis
      unfolding s' by simp
  qed
qed

lemma single_unigram_starts:
  assumes "single_unigram buf p s = Some s'" "table_starts (wordtree s)"
  shows "table_starts (wordtree s')"
proof -
  from assms(1) obtain a where a: "rd buf (p - 2) = Some a"
    by (auto simp: single_unigram_def bind_eq_Some_conv)
  show ?thesis
  proof (cases "is_big5word a")
    case False
    with a assms show ?thesis by (simp add: single_unigram_def)
  next
    case True
    with a assms(1) obtain src where src: "strncpy_src buf (p - 2) 2 = Some src"
      and s': "s' = addentry_key (s\<lparr>key := memcpy ((key s)(4 := 0, 2 := 0x21, 3 := 0x21)) 0 src\<rparr>)"
      by (auto simp: single_unigram_def Let_def bind_eq_Some_conv)
    have "memcpy ((key s)(4 := 0, 2 := 0x21, 3 := 0x21)) 0 src 0 = memcpy (key s) 0 src 0"
      by (simp add: memcpy_def)
    with copied_token_starts [OF src a _ _ assms(2)] True show ?thesis
      unfolding s' by simp
  qed
qed

lemma big5_branch_starts:
  assumes "big5_branch buf p s = Some (q, s')" "table_starts (wordtree s)"
  shows "table_starts (wordtree s')"
proof -
  from assms(1) obtain c where c: "rd buf (p + 2) = Some c"
    by (auto simp: big5_branch_def split: option.splits)
  show ?thesis
  proof (cases "is_big5word c")
    case False
    with c assms(1) have "single_unigram buf (p + 2) s = Some s'"
      by (auto simp: big5_branch_def)
    from single_unigram_starts [OF this assms(2)] show ?thesis .
  next
    case True
    with c assms(1) obtain s2 s3 where fb: "first_bigram buf (p + 2) s = Some s2"
      and lp: "big5_loop buf (p + 2) s2 = Some (q, s3)"
      and tu: "trailing_unigram buf q s3 = Some s'"
      by (auto simp: big5_branch_def bind_eq_Some_conv)
    from big5_loop_starts [OF lp c True first_bigram_starts [OF fb assms(2)]]
    obtain a' where "table_starts (wordtree s3)" "rd buf (q - 2) = Some a'" "is_big5word a'"
      by blast
    from trailing_unigram_starts [OF tu this(2,3,1)] show ?thesis .
  qed
qed

lemma alnum_branch_starts:
  assumes "alnum_branch buf p s = Some (buf', q, s')" "rd buf p = Some x" "is_alnum x"
    "table_starts (wordtree s)"
  shows "table_starts (wordtree s')"
proof -
  from assms(1) obtain xlen where al: "alnum_loop buf p 0 = Some (buf', q, xlen)"
    by (auto simp: alnum_branch_def bind_eq_Some_conv split: if_splits)
  show ?thesis
  proof (cases "xlen > 1")
    case False
    with al assms(1,4) show ?thesis by (simp add: alnum_branch_def)
  next
    case True
    define n where "n = (if xlen > MAXKEY then MAXKEY else xlen)"
    have n: "1 < n" using True by (simp add: n_def MAXKEY_def)
    from True al assms(1) obtain src where src: "strncpy_src buf' p n = Some src"
      and s': "s' = addentry_key (s\<lparr>key := (memcpy (key s) 0 src)(n := 0)\<rparr>)"
      by (auto simp: alnum_branch_def n_def [symmetric] Let_def bind_eq_Some_conv)
    from alnum_loop_result [OF al]
    have r: "p < q" "q \<le> length buf" "length buf' = length buf" "buf' ! p = lower (buf ! p)"
      by auto
    with assms(2) have x': "rd buf' p = Some (lower x)" by (simp add: rd_def)
    have "((memcpy (key s) 0 src)(n := 0)) 0 = memcpy (key s) 0 src 0"
      using n by simp
    with copied_token_starts [OF src x' _ _ assms(4)] assms(3) n show ?thesis
      unfolding s' by simp
  qed
qed

lemma extract_step_starts:
  assumes "extract_step buf p s = Some (buf', q, s')" "table_starts (wordtree s)"
  shows "table_starts (wordtree s')"
proof -
  from assms(1) obtain x where x: "rd buf p = Some x"
    by (auto simp: extract_step_def split: option.splits)
  consider "is_big5 x" | "\<not> is_big5 x" "is_alnum x" | "\<not> is_big5 x" "\<not> is_alnum x"
    by blast
  then show ?thesis
  proof cases
    case 1
    with x assms(1) have "big5_branch buf p s = Some (q, s')"
      by (auto simp: extract_step_def)
    from big5_branch_starts [OF this assms(2)] show ?thesis .
  next
    case 2
    with x assms(1) have "alnum_branch buf p s = Some (buf', q, s')"
      by (simp add: extract_step_def)
    from alnum_branch_starts [OF this x 2(2) assms(2)] show ?thesis .
  next
    case 3
    with x assms show ?thesis by (auto simp: extract_step_def)
  qed
qed

lemma extract_loop_starts:
  "extract_loop buf p s = Some (buf', s') \<Longrightarrow> table_starts (wordtree s) \<Longrightarrow>
   table_starts (wordtree s')"
proof (induction buf p s rule: extract_loop.induct)
  case (1 buf p s)
  from "1.prems"(1) obtain x where x: "rd buf p = Some x"
    by (subst (asm) extract_loop.simps) (auto split: option.splits)
  show ?case
  proof (cases "x = 0")
    case True
    with x "1.prems" show ?thesis
      by (subst (asm) extract_loop.simps) simp
  next
    case False
    with x "1.prems"(1) obtain b2 q s2 where st: "extract_step buf p s = Some (b2, q, s2)"
      and rec: "extract_loop b2 q s2 = Some (buf', s')"
      by (subst (asm) extract_loop.simps) (auto split: option.splits)
    from "1.IH" [OF x False st refl refl rec extract_step_starts [OF st "1.prems"(2)]]
    show ?thesis .
  qed
qed

lemma extract_words_starts:
  assumes "extract_words buf s = Some (buf', s')"
  shows "table_starts (wordtree s')"
  using extract_loop_starts [OF assms [unfolded extract_words_def]]
  by (simp add: table_starts_def tree_init_def)

lemma table_test_sign_independent:
  assumes "extract_words buf s = Some (buf', s')" "e \<in> set (wordtree s')"
  shows "\<exists>b. rd (word e) 0 = Some b \<and> is_big5_signed b = is_big5 b"
proof -
  from extract_words_starts [OF assms(1)] assms(2) have "token_start (word e)"
    by (simp add: table_starts_def)
  then obtain b r where "word e = b # r" "is_alnum b \<or> is_big5word b"
    by (auto simp: token_start_def split: list.splits)
  with token_byte_sign_independent [of b] show ?thesis
    by (simp add: rd_def)
qed


section \<open>Two runs of a driver\<close>

text \<open>
  Each driver is run from two states \<open>s\<close> and \<open>t\<close> with the same \<^verbatim>\<open>query\<close>, on the same
  input: whatever \<^verbatim>\<open>key\<close>, \<^verbatim>\<open>val\<close>, \<^verbatim>\<open>valp\<close>, \<^verbatim>\<open>delim\<close>, \<^verbatim>\<open>last\<close> and the table hold in \<open>t\<close>, if
  the run from \<open>s\<close> returns then so does the run from \<open>t\<close>, with the same buffer and the
  same calls of the callback.
\<close>

lemma tree_trav_two_runs:
  assumes step: "\<And>e s t s'. f e s = Some s' \<Longrightarrow> R s t \<Longrightarrow>
             \<exists>t' cs. f e t = Some t' \<and> R s' t' \<and> calls s' = calls s @ cs \<and> calls t' = calls t @ cs"
    and run: "tree_trav f es s = Some s'" and rel: "R s t"
  shows "\<exists>t' cs. tree_trav f es t = Some t' \<and> R s' t' \<and>
           calls s' = calls s @ cs \<and> calls t' = calls t @ cs"
  using run rel
proof (induction es arbitrary: s t)
  case Nil
  then show ?case by simp
next
  case (Cons e es)
  from Cons.prems(1) obtain s1 where s1: "f e s = Some s1"
    and r: "tree_trav f es s1 = Some s'"
    by (auto split: option.splits)
  from step [OF s1 Cons.prems(2)] obtain t1 cs1
    where k1: "f e t = Some t1" "R s1 t1" "calls s1 = calls s @ cs1" "calls t1 = calls t @ cs1"
    by blast
  from Cons.IH [OF r k1(2)] obtain t' cs2
    where k2: "tree_trav f es t1 = Some t'" "R s' t'" "calls s' = calls s1 @ cs2"
      "calls t' = calls t1 @ cs2"
    by blast
  have "tree_trav f (e # es) t = Some t'" using k1(1) k2(1) by simp
  moreover have "calls s' = calls s @ (cs1 @ cs2)" "calls t' = calls t @ (cs1 @ cs2)"
    using k1 k2 by simp_all
  ultimately show ?case using k2(2) by blast
qed

lemma cb_pair_two_runs:
  assumes "cb_pair e s = Some s'" "same_query s t"
  shows "\<exists>t' cs. cb_pair e t = Some t' \<and> same_query s' t' \<and>
           calls s' = calls s @ cs \<and> calls t' = calls t @ cs"
proof -
  obtain b0 where b0: "rd (word e) 0 = Some b0"
    using assms(1) by (auto simp: cb_pair_def split: option.splits)
  show ?thesis
  proof (cases "is_big5 b0")
    case False
    with b0 assms show ?thesis
      by (auto simp: cb_pair_def cb_def same_query_def)
  next
    case True
    with b0 assms(1) obtain pfx where p: "bytes_at (word e) 0 2 = Some pfx"
      and len: "2 \<le> length (word e)"
      and s': "s' = cb (key_string ((memcpy (key s) 0 pfx)(2 := 0))) (Bytes (drop 2 (word e)))
                 (emitted (freq e)) (s\<lparr>key := (memcpy (key s) 0 pfx)(2 := 0)\<rparr>)"
      by (auto simp: cb_pair_def Let_def bind_eq_Some_conv split: if_splits)
    from p have l: "length pfx = 2" by (rule bytes_at_length)
    have ks: "key_string ((memcpy k 0 pfx)(2 := 0)) = takeWhile (\<lambda>b. b \<noteq> 0) pfx" for k
      by (rule key_string_terminated) (simp_all add: l MAXKEY_def)
    have "cb_pair e t = Some (cb (takeWhile (\<lambda>b. b \<noteq> 0) pfx) (Bytes (drop 2 (word e)))
                 (emitted (freq e)) (t\<lparr>key := (memcpy (key t) 0 pfx)(2 := 0)\<rparr>))"
      using True b0 p len by (simp add: cb_pair_def Let_def ks)
    then show ?thesis
      using assms(2) by (simp add: s' ks cb_def same_query_def)
  qed
qed

lemma cb_word_two_runs:
  assumes "cb_word ord e s = Some s'" "same_query s t"
  shows "\<exists>t' cs. cb_word ord e t = Some t' \<and> same_query s' t' \<and>
           calls s' = calls s @ cs \<and> calls t' = calls t @ cs"
  using assms
  by (auto simp: cb_word_def cb_def same_query_def Let_def split: option.splits if_splits)

lemma open_group_two_runs:
  assumes "open_group e s = Some s1" "map (delim t) [0..<4] = map (delim s) [0..<4]"
  shows "\<exists>t1. open_group e t = Some t1 \<and> key_string (key t1) = key_string (key s1) \<and>
           (\<forall>i\<le>6. val t1 i = val s1 i)"
proof -
  from assms(1) obtain pfx sfx where p: "bytes_at (word e) 0 2 = Some pfx"
    and sf: "bytes_at (word e) 2 2 = Some sfx"
    and s1: "s1 = s\<lparr>key := (memcpy (key s) 0 pfx)(2 := 0),
        val := (memcpy (memcpy (val s) 0 (map (delim s) [0..<4])) 4 sfx)
                 (6 := ucast (emitted (freq e))), valp := 6\<rparr>"
    by (auto simp: open_group_def Let_def bind_eq_Some_conv simp del: upt_rec_numeral)
  let ?t1 = "t\<lparr>key := (memcpy (key t) 0 pfx)(2 := 0),
        val := (memcpy (memcpy (val t) 0 (map (delim s) [0..<4])) 4 sfx)
                 (6 := ucast (emitted (freq e))), valp := 6\<rparr>"
  from p have l: "length pfx = 2" by (rule bytes_at_length)
  from sf have l2: "length sfx = 2" by (rule bytes_at_length)
  have ks: "key_string ((memcpy k 0 pfx)(2 := 0)) = takeWhile (\<lambda>b. b \<noteq> 0) pfx" for k
    by (rule key_string_terminated) (simp_all add: l MAXKEY_def)
  have "open_group e t = Some ?t1"
    using p sf assms(2) by (simp add: open_group_def Let_def del: upt_rec_numeral map_eq_conv)
  moreover have "key_string (key ?t1) = key_string (key s1)"
    by (simp add: s1 ks)
  moreover have "\<forall>i\<le>6. val ?t1 i = val s1 i"
    by (simp add: s1 memcpy_def l2 del: upt_rec_numeral)
  ultimately show ?thesis by blast
qed


lemma flush_group_two_runs:
  assumes "valp t = valp s" "\<forall>i\<le>valp s. val t i = val s i"
  shows "\<exists>c. calls (flush_group k s) = calls s @ [c] \<and> calls (flush_group k t) = calls t @ [c]"
proof -
  have "map (val t) [0..<valp s + 1] = map (val s) [0..<valp s + 1]"
    using assms(2) by simp
  then show ?thesis
    using assms(1) by (simp add: flush_group_def cb_def)
qed

lemma cb_delim_two_runs:
  assumes "cb_delim e s = Some s'" "same_group s t"
  shows "\<exists>t' cs. cb_delim e t = Some t' \<and> same_group s' t' \<and>
           calls s' = calls s @ cs \<and> calls t' = calls t @ cs"
proof -
  from assms(2) have q: "query t = query s" and le: "last_en t = last_en s"
    and dl: "map (delim t) [0..<4] = map (delim s) [0..<4]"
    and open_inv: "last_en s \<noteq> None \<Longrightarrow>
       valp t = valp s \<and> key_string (key t) = key_string (key s) \<and>
       (\<forall>i\<le>valp s. val t i = val s i)"
    by (simp_all add: same_group_def del: upt_rec_numeral map_eq_conv)
  obtain b0 where b0: "rd (word e) 0 = Some b0"
    by (cases "word e") (simp_all add: rd_def)
  show ?thesis
  proof (cases "is_big5 b0")
    case False
    let ?v = "\<lambda>u. (memcpy (val u) 0 (map (delim s) [0..<4]))
                (4 := 0x20, 5 := 0x20, 6 := ucast (emitted (freq e)))"
    let ?s1 = "s\<lparr>val := ?v s, valp := 6\<rparr>"
    let ?t1 = "t\<lparr>val := ?v t, valp := 6\<rparr>"
    from False b0 assms(1) have s': "s' = flush_group (word e) ?s1"
      by (simp add: cb_delim_def Let_def del: upt_rec_numeral)
    from False b0 dl have t': "cb_delim e t = Some (flush_group (word e) ?t1)"
      by (simp add: cb_delim_def Let_def del: upt_rec_numeral map_eq_conv)
    have v: "\<forall>i\<le>valp ?s1. val ?t1 i = val ?s1 i"
      by (simp add: memcpy_def)
    have "valp ?t1 = valp ?s1" by simp
    from flush_group_two_runs [OF this v, of "word e"] obtain c
      where c: "calls s' = calls s @ [c]" "calls (flush_group (word e) ?t1) = calls t @ [c]"
      by (auto simp: s')
    have ks: "last_en s \<noteq> None \<Longrightarrow> key_string (key t) = key_string (key s)"
      using open_inv by simp
    have "same_group s' (flush_group (word e) ?t1)"
      unfolding same_group_def s'
      using q le dl ks v by (simp del: upt_rec_numeral map_eq_conv)
    with t' c show ?thesis by blast
  next
    case True
    show ?thesis
    proof (cases "last_en s")
      case None
      with True b0 assms(1) obtain s1 where og: "open_group e s = Some s1"
        and s': "s' = s1\<lparr>last_en := Some e\<rparr>"
        by (auto simp: cb_delim_def bind_eq_Some_conv)
      from open_group_two_runs [OF og dl] obtain t1 where
        ot: "open_group e t = Some t1" "key_string (key t1) = key_string (key s1)"
          "\<forall>i\<le>6. val t1 i = val s1 i"
        by blast
      note ks = open_group_keeps [OF og]
      note kt = open_group_keeps [OF ot(1)]
      have t': "cb_delim e t = Some (t1\<lparr>last_en := Some e\<rparr>)"
        using True b0 None le ot(1) by (simp add: cb_delim_def)
      have "same_group s' (t1\<lparr>last_en := Some e\<rparr>)"
        unfolding same_group_def s'
        using ks kt ot q dl by (simp del: upt_rec_numeral map_eq_conv)
      moreover have "calls s' = calls s @ []" "calls (t1\<lparr>last_en := Some e\<rparr>) = calls t @ []"
        using ks kt by (simp_all add: s')
      ultimately show ?thesis using t' by blast
    next
      case (Some l)
      with open_inv have inv: "valp t = valp s" "key_string (key t) = key_string (key s)"
        "\<forall>i\<le>valp s. val t i = val s i"
        by simp_all
      from Some le have lt: "last_en t = Some l" by simp
      define test where "test =
        rd (word l) 0 \<bind> (\<lambda>l0. if b0 = l0
          then rd (word e) 1 \<bind> (\<lambda>b1. rd (word l) 1 \<bind> (\<lambda>l1. Some (b1 = l1)))
          else Some False)"
      have unf: "cb_delim e u =
          (test \<bind> (\<lambda>same. if same
             then bytes_at (word e) 2 2 \<bind> (\<lambda>sfx.
                    Some (u\<lparr>val := (memcpy (val u) (valp u + 1) sfx)
                                     (valp u + 3 := ucast (emitted (freq e))),
                            valp := valp u + 3\<rparr>))
             else open_group e (flush_group (key_string (key u)) u)))
          \<bind> (\<lambda>s'. Some (s'\<lparr>last_en := Some e\<rparr>))"
        if "last_en u = Some l" for u
        using that b0 True by (simp add: cb_delim_def test_def)
      from assms(1) obtain same s1 where st: "test = Some same"
        and br: "(if same
             then bytes_at (word e) 2 2 \<bind> (\<lambda>sfx.
                    Some (s\<lparr>val := (memcpy (val s) (valp s + 1) sfx)
                                     (valp s + 3 := ucast (emitted (freq e))),
                            valp := valp s + 3\<rparr>))
             else open_group e (flush_group (key_string (key s)) s)) = Some s1"
        and s': "s' = s1\<lparr>last_en := Some e\<rparr>"
        unfolding unf [OF Some] by (auto simp: bind_eq_Some_conv)
      show ?thesis
      proof (cases same)
        case True
        note same = this
        from br same obtain sfx where
          sf: "bytes_at (word e) 2 2 = Some sfx"
          and s1: "s1 = s\<lparr>val := (memcpy (val s) (valp s + 1) sfx)
                  (valp s + 3 := ucast (emitted (freq e))), valp := valp s + 3\<rparr>"
          by (auto simp: bind_eq_Some_conv)
        let ?t' = "t\<lparr>val := (memcpy (val t) (valp t + 1) sfx)
                  (valp t + 3 := ucast (emitted (freq e))), valp := valp t + 3,
                  last_en := Some e\<rparr>"
        have t': "cb_delim e t = Some ?t'"
          unfolding unf [OF lt] using st same sf by simp
        from sf have l2: "length sfx = 2" by (rule bytes_at_length)
        have "i \<le> valp s" if "i \<le> valp s + 3" "i \<noteq> valp s + 3"
          "\<not> (valp s + 1 \<le> i \<and> i < valp s + 1 + 2)" for i
          using that by arith
        then have "\<forall>i\<le>valp s + 3. val ?t' i = val (s' :: globals) i"
          using inv by (simp add: s' s1 memcpy_def l2)
        then have "same_group s' ?t'"
          unfolding same_group_def
          using q dl inv by (simp add: s' s1 del: upt_rec_numeral map_eq_conv)
        moreover have "calls s' = calls s @ []" "calls ?t' = calls t @ []"
          by (simp_all add: s' s1)
        ultimately show ?thesis using t' by blast
      next
        case False
        note other = this
        let ?s0 = "flush_group (key_string (key s)) s"
        let ?t0 = "flush_group (key_string (key s)) t"
        from br other have og: "open_group e ?s0 = Some s1" by simp
        have dl0: "map (delim ?t0) [0..<4] = map (delim ?s0) [0..<4]"
          using dl by (simp del: upt_rec_numeral map_eq_conv)
        from open_group_two_runs [OF og dl0] obtain t1 where
          ot: "open_group e ?t0 = Some t1" "key_string (key t1) = key_string (key s1)"
            "\<forall>i\<le>6. val t1 i = val s1 i"
          by blast
        note ks = open_group_keeps [OF og]
        note kt = open_group_keeps [OF ot(1)]
        have t': "cb_delim e t = Some (t1\<lparr>last_en := Some e\<rparr>)"
          unfolding unf [OF lt] using st other ot(1) inv(2) by simp
        from flush_group_two_runs [OF inv(1) inv(3), of "key_string (key s)"] obtain c
          where c: "calls ?s0 = calls s @ [c]" "calls ?t0 = calls t @ [c]"
          by blast
        have "same_group s' (t1\<lparr>last_en := Some e\<rparr>)"
          unfolding same_group_def s'
          using ks kt ot q dl by (simp del: upt_rec_numeral map_eq_conv)
        moreover have "calls s' = calls s @ [c]" "calls (t1\<lparr>last_en := Some e\<rparr>) = calls t @ [c]"
          using ks kt c by (simp_all add: s')
        ultimately show ?thesis using t' by blast
      qed
    qed
  qed
qed


lemma emit_delim_two_runs:
  assumes "emit_delim seed s = Some s'" "query t = query s" "wordtree t = wordtree s"
  shows "\<exists>t' cs. emit_delim seed t = Some t' \<and> query s' = query s \<and> query t' = query t \<and>
           calls s' = calls s @ cs \<and> calls t' = calls t @ cs"
proof -
  let ?d = "take 4 seed"
  let ?s2 = "s\<lparr>delim := memcpy (delim s) 0 ?d, last_en := None\<rparr>"
  let ?t2 = "t\<lparr>delim := memcpy (delim t) 0 ?d, last_en := None\<rparr>"
  from assms(1) have seed: "4 \<le> length seed"
    by (auto simp: emit_delim_def split: if_splits)
  with assms(1) obtain s3 where tr: "tree_trav cb_delim (wordtree s) ?s2 = Some s3"
    and fin: "(case last_en s3 of
                 Some l \<Rightarrow> (if 2 \<le> length (word l)
                            then Some (flush_group (take 2 (word l)) s3) else None)
               | None \<Rightarrow> Some s3) = Some s'"
    by (auto simp: emit_delim_def Let_def bind_eq_Some_conv)
  have "length ?d = 4" using seed by simp
  then have "map (memcpy (delim s) 0 ?d) [0..<4] = ?d" "map (memcpy (delim t) 0 ?d) [0..<4] = ?d"
    by (rule map_memcpy_four)+
  then have rel: "same_group ?s2 ?t2"
    using assms(2) by (simp add: same_group_def del: upt_rec_numeral map_eq_conv)
  from tree_trav_two_runs [of cb_delim same_group, OF cb_delim_two_runs tr rel]
  obtain t3 cs where k: "tree_trav cb_delim (wordtree s) ?t2 = Some t3" "same_group s3 t3"
    "calls s3 = calls ?s2 @ cs" "calls t3 = calls ?t2 @ cs"
    by blast
  from k(2) have q3: "query t3 = query s3" and l3: "last_en t3 = last_en s3"
    and inv: "last_en s3 \<noteq> None \<Longrightarrow> valp t3 = valp s3 \<and> (\<forall>i\<le>valp s3. val t3 i = val s3 i)"
    by (simp_all add: same_group_def del: upt_rec_numeral map_eq_conv)
  have d0: "delim_kept ?d ?s2" "delim_kept ?d ?t2"
    using \<open>map (memcpy (delim s) 0 ?d) [0..<4] = ?d\<close> \<open>map (memcpy (delim t) 0 ?d) [0..<4] = ?d\<close>
    by (simp_all add: delim_kept_def del: upt_rec_numeral)
  from tree_trav_keeps [OF tr d0(1)] have qs: "query s3 = query s" by simp
  from tree_trav_keeps [OF k(1) d0(2)] have qt: "query t3 = query t" by simp
  have em: "emit_delim seed t =
      (case last_en t3 of
         Some l \<Rightarrow> (if 2 \<le> length (word l)
                    then Some (flush_group (take 2 (word l)) t3) else None)
       | None \<Rightarrow> Some t3)"
    using seed k(1) assms(3) by (simp add: emit_delim_def Let_def)
  show ?thesis
  proof (cases "last_en s3")
    case None
    with fin have "s' = s3" by simp
    moreover from None l3 em have "emit_delim seed t = Some t3" by simp
    ultimately show ?thesis using k(3,4) qs qt by auto
  next
    case (Some l)
    with fin have len: "2 \<le> length (word l)" and s': "s' = flush_group (take 2 (word l)) s3"
      by (simp_all split: if_splits)
    from Some l3 em len have e: "emit_delim seed t = Some (flush_group (take 2 (word l)) t3)"
      by simp
    from inv Some have "valp t3 = valp s3" "\<forall>i\<le>valp s3. val t3 i = val s3 i" by simp_all
    from flush_group_two_runs [OF this, of "take 2 (word l)"] obtain c
      where c: "calls s' = calls s3 @ [c]" "calls (flush_group (take 2 (word l)) t3) = calls t3 @ [c]"
      by (auto simp: s')
    have "calls s' = calls s @ (cs @ [c])"
      "calls (flush_group (take 2 (word l)) t3) = calls t @ (cs @ [c])"
      using c k(3,4) by simp_all
    moreover have "query s' = query s" "query (flush_group (take 2 (word l)) t3) = query t"
      using qs qt by (simp_all add: s')
    ultimately show ?thesis using e by blast
  qed
qed

lemma parse_delim_two_runs:
  assumes "parse_delim p seed s = Some (p', s')" "query t = query s"
  shows "\<exists>t' cs. parse_delim p seed t = Some (p', t') \<and> query s' = query s \<and> query t' = query t \<and>
           calls s' = calls s @ cs \<and> calls t' = calls t @ cs"
proof -
  from assms(1) obtain s1 s4 where ew: "extract_words p s = Some (p', s1)"
    and em: "emit_delim seed s1 = Some s4"
    and s': "s' = s4\<lparr>wordtree := tree_mung (wordtree s4)\<rparr>"
    by (auto simp: parse_delim_def bind_eq_Some_conv)
  from extract_words_two_runs [OF ew assms(2)] obtain t1
    where et: "extract_words p t = Some (p', t1)" "wordtree t1 = wordtree s1"
      "untouched s s1" "untouched t t1"
    by blast
  then have f: "query s1 = query s" "calls s1 = calls s" "query t1 = query t" "calls t1 = calls t"
    by (simp_all add: untouched_def)
  with assms(2) have "query t1 = query s1" by simp
  from emit_delim_two_runs [OF em this et(2)] obtain t4 cs
    where k: "emit_delim seed t1 = Some t4" "query s4 = query s1" "query t4 = query t1"
      "calls s4 = calls s1 @ cs" "calls t4 = calls t1 @ cs"
    by blast
  have "parse_delim p seed t = Some (p', t4\<lparr>wordtree := tree_mung (wordtree t4)\<rparr>)"
    using et(1) k(1) by (simp add: parse_delim_def)
  then show ?thesis using k f by (simp add: s')
qed

lemma tree_trav_query:
  assumes "\<And>e s s'. f e s = Some s' \<Longrightarrow> query s' = query s" "tree_trav f es s = Some s'"
  shows "query s' = query s"
  using assms(2)
proof (induction es arbitrary: s)
  case Nil
  then show ?case by simp
next
  case (Cons e es)
  from Cons.prems obtain s1 where s1: "f e s = Some s1" and r: "tree_trav f es s1 = Some s'"
    by (auto split: option.splits)
  from Cons.IH [OF r] assms(1) [OF s1] show ?case by simp
qed

lemma cb_pair_query: "cb_pair e s = Some s' \<Longrightarrow> query s' = query s"
  by (auto simp: cb_pair_def cb_def Let_def bind_eq_Some_conv split: option.splits if_splits)

lemma cb_word_query: "cb_word ord e s = Some s' \<Longrightarrow> query s' = query s"
  by (auto simp: cb_word_def cb_def Let_def split: option.splits if_splits)

lemma parse_pair_two_runs:
  assumes "parse_pair p s = Some (p', s')" "query t = query s"
  shows "\<exists>t' cs. parse_pair p t = Some (p', t') \<and> query s' = query s \<and> query t' = query t \<and>
           calls s' = calls s @ cs \<and> calls t' = calls t @ cs"
proof -
  from assms(1) obtain s1 s2 where ew: "extract_words p s = Some (p', s1)"
    and tr: "tree_trav (cb_pair) (wordtree s1) s1 = Some s2"
    and s': "s' = s2\<lparr>wordtree := tree_mung (wordtree s2)\<rparr>"
    by (auto simp: parse_pair_def bind_eq_Some_conv)
  from extract_words_two_runs [OF ew assms(2)] obtain t1
    where et: "extract_words p t = Some (p', t1)" "wordtree t1 = wordtree s1"
      "untouched s s1" "untouched t t1"
    by blast
  then have f: "query s1 = query s" "calls s1 = calls s" "query t1 = query t" "calls t1 = calls t"
    by (simp_all add: untouched_def)
  with assms(2) have rel: "same_query s1 t1" by (simp add: same_query_def)
  from tree_trav_two_runs [of "cb_pair" same_query, OF cb_pair_two_runs tr rel]
  obtain t2 cs where k: "tree_trav (cb_pair) (wordtree s1) t1 = Some t2" "same_query s2 t2"
    "calls s2 = calls s1 @ cs" "calls t2 = calls t1 @ cs"
    by blast
  have qs: "query s2 = query s1"
    using tr by (rule tree_trav_query [rotated]) (rule cb_pair_query)
  have "parse_pair p t = Some (p', t2\<lparr>wordtree := tree_mung (wordtree t2)\<rparr>)"
    using et(1,2) k(1) by (simp add: parse_pair_def)
  then show ?thesis using k f qs assms(2) by (simp add: s' same_query_def)
qed

lemma parse_word_two_runs:
  assumes "parse_word ord p s = Some (p', s')" "query t = query s"
  shows "\<exists>t' cs. parse_word ord p t = Some (p', t') \<and> query s' = query s \<and> query t' = query t \<and>
           calls s' = calls s @ cs \<and> calls t' = calls t @ cs"
proof -
  from assms(1) obtain s1 s2 where ew: "extract_words p s = Some (p', s1)"
    and tr: "tree_trav (cb_word ord) (wordtree s1) s1 = Some s2"
    and s': "s' = s2\<lparr>wordtree := tree_mung (wordtree s2)\<rparr>"
    by (auto simp: parse_word_def bind_eq_Some_conv)
  from extract_words_two_runs [OF ew assms(2)] obtain t1
    where et: "extract_words p t = Some (p', t1)" "wordtree t1 = wordtree s1"
      "untouched s s1" "untouched t t1"
    by blast
  then have f: "query s1 = query s" "calls s1 = calls s" "query t1 = query t" "calls t1 = calls t"
    by (simp_all add: untouched_def)
  with assms(2) have rel: "same_query s1 t1" by (simp add: same_query_def)
  from tree_trav_two_runs [of "cb_word ord" same_query, OF cb_word_two_runs tr rel]
  obtain t2 cs where k: "tree_trav (cb_word ord) (wordtree s1) t1 = Some t2" "same_query s2 t2"
    "calls s2 = calls s1 @ cs" "calls t2 = calls t1 @ cs"
    by blast
  have qs: "query s2 = query s1"
    using tr by (rule tree_trav_query [rotated]) (rule cb_word_query)
  have "parse_word ord p t = Some (p', t2\<lparr>wordtree := tree_mung (wordtree t2)\<rparr>)"
    using et(1,2) k(1) by (simp add: parse_word_def)
  then show ?thesis using k f qs assms(2) by (simp add: s' same_query_def)
qed

text \<open>A driver run on the buffer that it left does what it did on the caller's bytes.\<close>

lemma parse_delim_rerun:
  assumes "parse_delim p seed s = Some (p1, s1)"
  shows "parse_delim p1 seed s = Some (p1, s1)"
proof -
  from assms obtain s' where ew: "extract_words p s = Some (p1, s')"
    by (auto simp: parse_delim_def bind_eq_Some_conv)
  from extract_words_rerun [OF this] ew assms show ?thesis
    by (simp add: parse_delim_def)
qed

lemma parse_pair_rerun:
  assumes "parse_pair p s = Some (p1, s1)"
  shows "parse_pair p1 s = Some (p1, s1)"
proof -
  from assms obtain s' where ew: "extract_words p s = Some (p1, s')"
    by (auto simp: parse_pair_def bind_eq_Some_conv)
  from extract_words_rerun [OF this] ew assms show ?thesis
    by (simp add: parse_pair_def)
qed

lemma parse_word_rerun:
  assumes "parse_word ord p s = Some (p1, s1)"
  shows "parse_word ord p1 s = Some (p1, s1)"
proof -
  from assms obtain s' where ew: "extract_words p s = Some (p1, s')"
    by (auto simp: parse_word_def bind_eq_Some_conv)
  from extract_words_rerun [OF this] ew assms show ?thesis
    by (simp add: parse_word_def)
qed



end
